theory Spec2Isabelle
  imports
    Main
    "HOL-Library.Char_ord"
    "HOL-Library.List_Lexorder"
    "HOL-Library.Option_ord"
    "HOL-Library.AList"
    "HOL-Library.Multiset"
begin

section \<open>apt-cyg-clean: pruning old Cygwin package archives\<close>

text \<open>
  A shallow embedding of \<^verbatim>\<open>apt-cyg-clean.py\<close>. The script is Python 2 (it uses print
  statements), so a \<^verbatim>\<open>str\<close> is a byte string: it is modelled as \<^typ>\<open>string\<close>, and the
  comparison of two byte strings is the lexicographic order of their bytes, which is the
  order that \<^theory_text>\<open>Char_ord\<close> and \<^theory_text>\<open>List_Lexorder\<close> put on \<^typ>\<open>string\<close>.
\<close>

subsection \<open>Exceptions\<close>

datatype py_error = TypeError | IndexError | OSError

subsection \<open>The package identity\<close>

text \<open>
  \<^verbatim>\<open>CygPackage = namedtuple("CygPackage", ['package', 'version', 'release'])\<close>.
  A field holds a string or \<^verbatim>\<open>None\<close>.
\<close>

datatype CygPackage =
  CygPackage (package: "string option") (version: "string option") (release: "string option")

definition INVALID_PACKAGE :: CygPackage where
  "INVALID_PACKAGE = CygPackage None None None"

definition SUFFIX :: string where
  "SUFFIX = ''.tar.bz2''"

subsection \<open>String primitives of Python used by the script\<close>

text \<open>\<^verbatim>\<open>s.endswith(suf)\<close>.\<close>

definition endswith :: "string \<Rightarrow> string \<Rightarrow> bool" where
  "endswith s suf \<longleftrightarrow> length suf \<le> length s \<and> drop (length s - length suf) s = suf"

text \<open>
  \<^verbatim>\<open>s.split(sep, n)\<close> for a separator of one character: at most \<open>n\<close> splits, from the left.
\<close>

fun split_max :: "char \<Rightarrow> nat \<Rightarrow> string \<Rightarrow> string list" where
  "split_max c 0 s = [s]"
| "split_max c (Suc n) s =
     (if c \<in> set s
      then takeWhile (\<lambda>x. x \<noteq> c) s # split_max c n (tl (dropWhile (\<lambda>x. x \<noteq> c) s))
      else [s])"

text \<open>
  \<^verbatim>\<open>s.rsplit(sep, n)\<close> for a separator of one character: at most \<open>n\<close> splits, from the
  right. It is the mirror image of \<^verbatim>\<open>split\<close>.
\<close>

definition rsplit :: "char \<Rightarrow> nat \<Rightarrow> string \<Rightarrow> string list" where
  "rsplit c n s = rev (map rev (split_max c n (rev s)))"

text \<open>\<^verbatim>\<open>sep.join(xs)\<close>.\<close>

fun str_join :: "string \<Rightarrow> string list \<Rightarrow> string" where
  "str_join sep [] = []"
| "str_join sep [x] = x"
| "str_join sep (x # y # ys) = x @ sep @ str_join sep (y # ys)"

text \<open>
  What \<^verbatim>\<open>"{0}".format(x)\<close> and \<^verbatim>\<open>"%s" % x\<close> print for a field: the string itself, or
  \<^verbatim>\<open>None\<close> spelled out.
\<close>

definition fmt :: "string option \<Rightarrow> string" where
  "fmt x = (case x of None \<Rightarrow> ''None'' | Some s \<Rightarrow> s)"

text \<open>
  \<^verbatim>\<open>posixpath.join(a, b)\<close> (the script runs under Cygwin, where \<^verbatim>\<open>os.path\<close> is
  \<^verbatim>\<open>posixpath\<close>): an absolute \<open>b\<close> replaces \<open>a\<close>; otherwise \<open>b\<close> is appended, after a
  slash unless \<open>a\<close> is empty or ends with one.
\<close>

definition path_join :: "string \<Rightarrow> string \<Rightarrow> string" where
  "path_join a b =
     (if b \<noteq> [] \<and> hd b = CHR ''/'' then b
      else if a = [] \<or> last a = CHR ''/'' then a @ b
      else a @ ''/'' @ b)"

subsection \<open>The two regular expressions\<close>

text \<open>
  \<^verbatim>\<open>\d\<close> on a byte string without flags is the class \<^verbatim>\<open>[0-9]\<close>.
\<close>

definition re_digit :: "char \<Rightarrow> bool" where
  "re_digit c \<longleftrightarrow> c \<in> set ''0123456789''"

text \<open>The class \<^verbatim>\<open>[0-9\.]\<close>.\<close>

definition re_digit_or_dot :: "char \<Rightarrow> bool" where
  "re_digit_or_dot c \<longleftrightarrow> re_digit c \<or> c = CHR ''.''"

text \<open>The class \<^verbatim>\<open>[1-9]\<close>.\<close>

definition re_nonzero_digit :: "char \<Rightarrow> bool" where
  "re_nonzero_digit c \<longleftrightarrow> c \<in> set ''123456789''"

text \<open>
  \<^verbatim>\<open>$\<close> without the MULTILINE flag: Python's \<^verbatim>\<open>re\<close> matches it at the end of the string
  and also just before a newline that is the last character of the string. The argument is
  what is left of the subject string at the position tried.
\<close>

definition re_dollar :: "string \<Rightarrow> bool" where
  "re_dollar rest \<longleftrightarrow> rest = [] \<or> rest = [CHR 0x0A]"

text \<open>
  \<^verbatim>\<open>C*K\<close>: a backtracking match of a starred character class followed by the
  continuation \<open>K\<close>; greedy, so the longer repetition is tried first.
\<close>

fun re_star :: "(char \<Rightarrow> bool) \<Rightarrow> (string \<Rightarrow> bool) \<Rightarrow> string \<Rightarrow> bool" where
  "re_star cls k [] = k []"
| "re_star cls k (c # cs) = ((cls c \<and> re_star cls k cs) \<or> k (c # cs))"

text \<open>
  \<^verbatim>\<open>re.match(r'^\d[0-9\.]*$', ver)\<close>; the result is the truth value of the match object.
\<close>

definition chkversion :: "string \<Rightarrow> bool" where
  "chkversion ver =
     (case ver of [] \<Rightarrow> False | c # cs \<Rightarrow> re_digit c \<and> re_star re_digit_or_dot re_dollar cs)"

text \<open>\<^verbatim>\<open>re.match(r'^[1-9]\d*$', rel)\<close>.\<close>

definition chkrelease :: "string \<Rightarrow> bool" where
  "chkrelease rel =
     (case rel of [] \<Rightarrow> False | c # cs \<Rightarrow> re_nonzero_digit c \<and> re_star re_digit re_dollar cs)"

subsection \<open>Parsing a file name\<close>

text \<open>
  \<^verbatim>\<open>len(parts) == 3 and chkversion(parts[1]) and chkrelease(parts[2])\<close>: the checks are
  only reached when there are three parts.
\<close>

definition chkpackage :: "string list \<Rightarrow> bool" where
  "chkpackage parts \<longleftrightarrow> length parts = 3 \<and> chkversion (parts ! 1) \<and> chkrelease (parts ! 2)"

text \<open>
  \<^verbatim>\<open>CygPackage(*pack)\<close> is evaluated only when \<open>chkpackage pack\<close> holds, so \<open>pack\<close> has
  exactly three elements there.
\<close>

definition cygpackage :: "string \<Rightarrow> CygPackage" where
  "cygpackage s =
     (if \<not> endswith s SUFFIX then INVALID_PACKAGE
      else
        let p = take (length s - length SUFFIX) s;
            pack = rsplit CHR ''-'' 2 p
        in if chkpackage pack
           then CygPackage (Some (pack ! 0)) (Some (pack ! 1)) (Some (pack ! 2))
           else INVALID_PACKAGE)"

text \<open>
  \<^verbatim>\<open>cygpackage(s) is not INVALID_PACKAGE\<close>. The test is on object identity; \<open>cygpackage\<close>
  returns either the sentinel itself or a fresh tuple of three strings, which is never equal
  to the sentinel, so identity and equality agree here.
\<close>

definition ispackfile :: "string \<Rightarrow> bool" where
  "ispackfile s \<longleftrightarrow> cygpackage s \<noteq> INVALID_PACKAGE"

definition packname :: "CygPackage \<Rightarrow> string" where
  "packname p =
     (if p = INVALID_PACKAGE then []
      else fmt (package p) @ ''-'' @ fmt (version p) @ ''-'' @ fmt (release p) @ SUFFIX)"

subsection \<open>Sorting, popping and grouping\<close>

text \<open>
  \<^verbatim>\<open>xs.sort(key=f)\<close> where \<open>f\<close> may raise: the keys of all elements are computed first
  (the first exception is propagated), then the pairs are sorted by key with a stable
  sort, and the elements are read back.
\<close>

fun sort_keys :: "('a \<Rightarrow> py_error + 'k) \<Rightarrow> 'a list \<Rightarrow> py_error + ('k \<times> 'a) list" where
  "sort_keys f [] = Inr []"
| "sort_keys f (x # xs) =
     (case f x of
        Inl e \<Rightarrow> Inl e
      | Inr k \<Rightarrow> (case sort_keys f xs of Inl e \<Rightarrow> Inl e | Inr ks \<Rightarrow> Inr ((k, x) # ks)))"

definition py_sort :: "('a \<Rightarrow> py_error + 'k::linorder) \<Rightarrow> 'a list \<Rightarrow> py_error + 'a list" where
  "py_sort f xs =
     (case sort_keys f xs of Inl e \<Rightarrow> Inl e | Inr ks \<Rightarrow> Inr (map snd (sort_key fst ks)))"

text \<open>\<^verbatim>\<open>xs.pop()\<close>: the last element and the list without it.\<close>

definition list_pop :: "'a list \<Rightarrow> py_error + ('a \<times> 'a list)" where
  "list_pop xs = (if xs = [] then Inl IndexError else Inr (last xs, butlast xs))"

text \<open>
  \<^verbatim>\<open>[list(v) for k, v in groupby(xs, key=f)]\<close>: the maximal runs of consecutive elements
  with equal keys.
\<close>

function groupby :: "('a \<Rightarrow> 'k) \<Rightarrow> 'a list \<Rightarrow> 'a list list" where
  "groupby f [] = []"
| "groupby f (x # xs) =
     (x # takeWhile (\<lambda>y. f y = f x) xs) # groupby f (dropWhile (\<lambda>y. f y = f x) xs)"
  by pat_completeness auto
termination
  by (relation "measure (\<lambda>(f, xs). length xs)") (auto simp: length_dropWhile_le less_Suc_eq_le)

subsection \<open>Choosing what to remove\<close>

text \<open>The sort key of line 119, \<^verbatim>\<open>p.version+"-"+p.release\<close>; adding \<^verbatim>\<open>None\<close> raises.\<close>

definition version_release :: "CygPackage \<Rightarrow> py_error + string" where
  "version_release p =
     (case version p of
        None \<Rightarrow> Inl TypeError
      | Some v \<Rightarrow> (case release p of None \<Rightarrow> Inl TypeError | Some r \<Rightarrow> Inr (v @ ''-'' @ r)))"

text \<open>
  The dictionary \<open>trash\<close> is an association list in insertion order; \<^verbatim>\<open>trash[p] = v\<close> is
  \<^const>\<open>AList.update\<close>. (Python 2 iterates a dictionary in an order of its own; the order
  decides in which order the files are removed, not which files are.)
\<close>

type_synonym trash = "(CygPackage \<times> string list) list"

fun clean_loop :: "string \<Rightarrow> trash \<Rightarrow> CygPackage list list \<Rightarrow> py_error + trash" where
  "clean_loop root trash [] = Inr trash"
| "clean_loop root trash (vs # pks) =
     (case py_sort version_release vs of
        Inl e \<Rightarrow> Inl e
      | Inr vs1 \<Rightarrow>
          (case list_pop vs1 of
             Inl e \<Rightarrow> Inl e
           | Inr (p, vs2) \<Rightarrow>
               clean_loop root
                 (if vs2 \<noteq> [] then AList.update p (map (\<lambda>v. path_join root (packname v)) vs2) trash
                  else trash)
                 pks))"

definition clean :: "string \<Rightarrow> CygPackage list list \<Rightarrow> py_error + trash" where
  "clean root pks = clean_loop root [] pks"

subsection \<open>Removing the files\<close>

text \<open>
  The world the script acts on: the set of paths of the files that exist, and the lines
  printed so far. \<^verbatim>\<open>os.remove(f)\<close> deletes the file at \<open>f\<close> and raises \<^verbatim>\<open>OSError\<close> when
  there is none.
\<close>

record world =
  fs :: "string set"
  out :: "string list"

record args =
  verbose :: bool

definition os_remove :: "string \<Rightarrow> world \<Rightarrow> py_error + world" where
  "os_remove f w = (if f \<in> fs w then Inr (w\<lparr>fs := fs w - {f}\<rparr>) else Inl OSError)"

fun remove_files :: "string list \<Rightarrow> world \<Rightarrow> py_error + world" where
  "remove_files [] w = Inr w"
| "remove_files (f # vs) w =
     (case os_remove f w of Inl e \<Rightarrow> Inl e | Inr w' \<Rightarrow> remove_files vs w')"

fun rmtrash_loop :: "trash \<Rightarrow> world \<Rightarrow> py_error + world" where
  "rmtrash_loop [] w = Inr w"
| "rmtrash_loop ((p, vs) # trash) w =
     (case remove_files vs w of Inl e \<Rightarrow> Inl e | Inr w' \<Rightarrow> rmtrash_loop trash w')"

fun rmtrash_v :: "trash \<Rightarrow> world \<Rightarrow> world" where
  "rmtrash_v [] w = w"
| "rmtrash_v ((p, vs) # trash) w =
     rmtrash_v trash
       (w\<lparr>out := out w @
          [''Latest version of '' @ fmt (package p) @ '' is '' @ fmt (version p) @ ''-'' @
             fmt (release p),
           str_join [CHR 0x0A] vs @ [CHR 0x0A]]\<rparr>)"

definition rmtrash :: "trash \<Rightarrow> args \<Rightarrow> world \<Rightarrow> py_error + world" where
  "rmtrash trash a w = rmtrash_loop trash (if verbose a then rmtrash_v trash w else w)"

subsection \<open>One directory, and the walk\<close>

definition prune :: "string \<Rightarrow> string list \<Rightarrow> args \<Rightarrow> world \<Rightarrow> py_error + world" where
  "prune root files a w =
     (let pfiles = filter ispackfile files in
      if length pfiles = 1 then Inr w
      else
        let packages = map cygpackage pfiles;
            packages = sort_key package packages;
            pks = groupby package packages
        in case clean root pks of Inl e \<Rightarrow> Inl e | Inr trash \<Rightarrow> rmtrash trash a w)"

definition ispackdir :: "string \<Rightarrow> string list \<Rightarrow> string list \<Rightarrow> bool" where
  "ispackdir root dirs files \<longleftrightarrow> list_ex ispackfile files"

text \<open>
  \<open>forp\<close> over the triples that \<^verbatim>\<open>os.walk\<close> yields, taken here as a list: \<open>prune\<close> removes
  files only, after the directory that holds them has been listed.
\<close>

fun forp ::
  "(string \<Rightarrow> string list \<Rightarrow> args \<Rightarrow> world \<Rightarrow> py_error + world) \<Rightarrow>
   (string \<Rightarrow> string list \<Rightarrow> string list \<Rightarrow> bool) \<Rightarrow>
   (string \<times> string list \<times> string list) list \<Rightarrow> args \<Rightarrow> world \<Rightarrow> py_error + world" where
  "forp f pred [] a w = Inr w"
| "forp f pred ((root, dirs, files) # walk) a w =
     (if pred root dirs files
      then (case f root files a w of Inl e \<Rightarrow> Inl e | Inr w' \<Rightarrow> forp f pred walk a w')
      else forp f pred walk a w)"

subsection \<open>Auxiliary notions for the proofs\<close>

text \<open>
  The sort key of line 119 as a plain string, for identities whose version and release are
  strings; the element that \<open>pop\<close> returns after the sort of a group, the elements that are
  left, and the entry that the group adds to \<open>trash\<close>.
\<close>

definition vr :: "CygPackage \<Rightarrow> string" where
  "vr p = fmt (version p) @ ''-'' @ fmt (release p)"

definition kept :: "CygPackage list \<Rightarrow> CygPackage" where
  "kept vs = last (sort_key vr vs)"

definition discarded :: "CygPackage list \<Rightarrow> CygPackage list" where
  "discarded vs = butlast (sort_key vr vs)"

definition entry :: "string \<Rightarrow> CygPackage list \<Rightarrow> trash" where
  "entry root vs =
     (if discarded vs = [] then []
      else [(kept vs, map (\<lambda>v. path_join root (packname v)) (discarded vs))])"

text \<open>
  The groups that \<open>prune\<close> hands to \<open>clean\<close>: the value of \<open>pks\<close> at line 35, for the
  file list of a directory.
\<close>

definition name_groups :: "string list \<Rightarrow> CygPackage list list" where
  "name_groups files =
     groupby package (sort_key package (map cygpackage (filter ispackfile files)))"

text \<open>
  A package file \<open>f\<close> is superseded in a listing when the listing holds a package file of
  the same package name whose string \<^verbatim>\<open>version-release\<close> is greater, as strings.
\<close>

definition superseded :: "string list \<Rightarrow> string \<Rightarrow> bool" where
  "superseded files f \<longleftrightarrow>
     ispackfile f \<and>
     list_ex (\<lambda>g. ispackfile g \<and> package (cygpackage g) = package (cygpackage f) \<and>
        (case (version_release (cygpackage f), version_release (cygpackage g)) of
           (Inr kf, Inr kg) \<Rightarrow> kf < kg
         | _ \<Rightarrow> False)) files"

section \<open>Properties of the string primitives\<close>

lemma endswith_iff: "endswith s suf \<longleftrightarrow> (\<exists>p. s = p @ suf)"
proof
  assume "endswith s suf"
  then have "s = take (length s - length suf) s @ suf"
    unfolding endswith_def by (metis append_take_drop_id)
  then show "\<exists>p. s = p @ suf" ..
next
  assume "\<exists>p. s = p @ suf"
  then show "endswith s suf" by (auto simp: endswith_def)
qed

lemma str_join_Cons: "ys \<noteq> [] \<Longrightarrow> str_join sep (x # ys) = x @ sep @ str_join sep ys"
  by (cases ys) auto

lemma str_join_snoc: "xs \<noteq> [] \<Longrightarrow> str_join sep (xs @ [x]) = str_join sep xs @ sep @ x"
  by (induction sep xs rule: str_join.induct) auto

lemma split_max_nonempty: "split_max c n s \<noteq> []"
  by (cases n) auto

lemma length_split_max: "length (split_max c n s) \<le> Suc n"
  by (induction n arbitrary: s) auto

lemma str_join_split_max: "str_join [c] (split_max c n s) = s"
proof (induction n arbitrary: s)
  case 0
  show ?case by simp
next
  case (Suc n)
  show ?case
  proof (cases "c \<in> set s")
    case False
    then show ?thesis by simp
  next
    case True
    let ?d = "dropWhile (\<lambda>x. x \<noteq> c) s"
    from True have ne: "?d \<noteq> []" by (simp add: dropWhile_eq_Nil_conv)
    with hd_dropWhile [of "\<lambda>x. x \<noteq> c" s] have "hd ?d = c" by simp
    with ne have d: "?d = c # tl ?d" by (metis list.collapse)
    have "str_join [c] (split_max c (Suc n) s)
        = takeWhile (\<lambda>x. x \<noteq> c) s @ [c] @ str_join [c] (split_max c n (tl ?d))"
      using True by (simp add: str_join_Cons split_max_nonempty)
    also have "\<dots> = takeWhile (\<lambda>x. x \<noteq> c) s @ c # tl ?d"
      by (simp add: Suc.IH)
    also have "\<dots> = takeWhile (\<lambda>x. x \<noteq> c) s @ ?d"
      using d by simp
    finally show ?thesis by simp
  qed
qed

lemma str_join_rev: "str_join [c] (rev (map rev xs)) = rev (str_join [c] xs)"
proof (induction xs)
  case Nil
  show ?case by simp
next
  case (Cons x xs)
  show ?case
  proof (cases "xs = []")
    case True
    then show ?thesis by simp
  next
    case False
    then have "str_join [c] (rev (map rev xs) @ [rev x]) = str_join [c] (rev (map rev xs)) @ [c] @ rev x"
      by (intro str_join_snoc) simp
    with False Cons.IH show ?thesis by (simp add: str_join_Cons)
  qed
qed

lemma str_join_rsplit: "str_join [c] (rsplit c n s) = s"
  by (simp add: rsplit_def str_join_rev str_join_split_max)

lemma rsplit_three:
  assumes "length (rsplit c n s) = 3"
  shows "s = rsplit c n s ! 0 @ [c] @ rsplit c n s ! 1 @ [c] @ rsplit c n s ! 2"
proof -
  from assms obtain x y z where xyz: "rsplit c n s = [x, y, z]"
    by (auto simp: length_Suc_conv numeral_3_eq_3)
  have "str_join [c] (rsplit c n s) = s" by (rule str_join_rsplit)
  with xyz show ?thesis by simp
qed

lemma split_max_sep:
  assumes "c \<notin> set a"
  shows "split_max c (Suc n) (a @ c # rest) = a # split_max c n rest"
proof -
  have "takeWhile (\<lambda>x. x \<noteq> c) (a @ c # rest) = a"
    using assms by (auto simp: takeWhile_tail)
  moreover have "dropWhile (\<lambda>x. x \<noteq> c) (a @ c # rest) = c # rest"
    using assms by (auto simp: dropWhile_append3)
  ultimately show ?thesis by simp
qed

lemma rsplit_name_version_release:
  assumes "c \<notin> set v" and "c \<notin> set r"
  shows "rsplit c 2 (n @ [c] @ v @ [c] @ r) = [n, v, r]"
proof -
  have "rev (n @ [c] @ v @ [c] @ r) = rev r @ c # (rev v @ c # rev n)" by simp
  moreover have "split_max c (Suc (Suc 0)) (rev r @ c # (rev v @ c # rev n))
      = rev r # split_max c (Suc 0) (rev v @ c # rev n)"
    using assms by (intro split_max_sep) simp
  moreover have "split_max c (Suc 0) (rev v @ c # rev n) = rev v # split_max c 0 (rev n)"
    using assms by (intro split_max_sep) simp
  ultimately show ?thesis
    by (simp add: rsplit_def numeral_2_eq_2)
qed

section \<open>Properties of the validators and of the parser\<close>

lemma re_star_dollar_iff:
  assumes "\<not> cls (CHR 0x0A)"
  shows "re_star cls re_dollar cs \<longleftrightarrow>
    (\<exists>body. (cs = body \<or> cs = body @ [CHR 0x0A]) \<and> (\<forall>c\<in>set body. cls c))"
proof (induction cs)
  case Nil
  show ?case by (auto simp: re_dollar_def)
next
  case (Cons c cs)
  show ?case
  proof
    assume "re_star cls re_dollar (c # cs)"
    then consider "cls c" "re_star cls re_dollar cs" | "re_dollar (c # cs)" by auto
    then show "\<exists>body. (c # cs = body \<or> c # cs = body @ [CHR 0x0A]) \<and> (\<forall>x\<in>set body. cls x)"
    proof cases
      case 1
      with Cons.IH obtain body where "cs = body \<or> cs = body @ [CHR 0x0A]" "\<forall>x\<in>set body. cls x"
        by blast
      with 1 have "(c # cs = c # body \<or> c # cs = (c # body) @ [CHR 0x0A]) \<and> (\<forall>x\<in>set (c # body). cls x)"
        by auto
      then show ?thesis by blast
    next
      case 2
      then have "c # cs = [] @ [CHR 0x0A]" by (simp add: re_dollar_def)
      then show ?thesis by (metis empty_iff empty_set)
    qed
  next
    assume "\<exists>body. (c # cs = body \<or> c # cs = body @ [CHR 0x0A]) \<and> (\<forall>x\<in>set body. cls x)"
    then obtain body where b: "c # cs = body \<or> c # cs = body @ [CHR 0x0A]" "\<forall>x\<in>set body. cls x"
      by blast
    show "re_star cls re_dollar (c # cs)"
    proof (cases body)
      case Nil
      with b assms show ?thesis by (auto simp: re_dollar_def)
    next
      case (Cons d body')
      with b have "c = d" "cs = body' \<or> cs = body' @ [CHR 0x0A]" "cls d" "\<forall>x\<in>set body'. cls x"
        by auto
      with Cons.IH show ?thesis by auto
    qed
  qed
qed

lemma not_digit_newline: "\<not> re_digit (CHR 0x0A)"
  by (simp add: re_digit_def)

lemma not_digit_or_dot_newline: "\<not> re_digit_or_dot (CHR 0x0A)"
  by (simp add: re_digit_or_dot_def re_digit_def)

lemma chkversion_iff:
  "chkversion s \<longleftrightarrow>
    (\<exists>d body. (s = d # body \<or> s = d # body @ [CHR 0x0A]) \<and> re_digit d \<and> (\<forall>c\<in>set body. re_digit_or_dot c))"
  by (cases s) (auto simp: chkversion_def re_star_dollar_iff [of re_digit_or_dot, OF not_digit_or_dot_newline])

lemma chkrelease_iff:
  "chkrelease s \<longleftrightarrow>
    (\<exists>d body. (s = d # body \<or> s = d # body @ [CHR 0x0A]) \<and> re_nonzero_digit d \<and> (\<forall>c\<in>set body. re_digit c))"
  by (cases s) (auto simp: chkrelease_def re_star_dollar_iff [of re_digit, OF not_digit_newline])

lemma re_digit_not_hyphen: "re_digit c \<Longrightarrow> c \<noteq> CHR ''-''"
  by (auto simp: re_digit_def)

lemma re_digit_or_dot_not_hyphen: "re_digit_or_dot c \<Longrightarrow> c \<noteq> CHR ''-''"
  by (auto simp: re_digit_or_dot_def re_digit_def)

lemma re_nonzero_digit_not_hyphen: "re_nonzero_digit c \<Longrightarrow> c \<noteq> CHR ''-''"
  by (auto simp: re_nonzero_digit_def)

lemma chkversion_no_hyphen:
  assumes "chkversion v"
  shows "CHR ''-'' \<notin> set v"
proof -
  from assms obtain d body where
    v: "v = d # body \<or> v = d # body @ [CHR 0x0A]" and d: "re_digit d"
    and b: "\<forall>c\<in>set body. re_digit_or_dot c"
    unfolding chkversion_iff by blast
  from v have "set v \<subseteq> insert d (insert (CHR 0x0A) (set body))" by auto
  moreover from d have "CHR ''-'' \<noteq> d" using re_digit_not_hyphen by blast
  moreover from b have "CHR ''-'' \<notin> set body" using re_digit_or_dot_not_hyphen by blast
  moreover have "CHR ''-'' \<noteq> CHR 0x0A" by simp
  ultimately show ?thesis by blast
qed

lemma chkrelease_no_hyphen:
  assumes "chkrelease r"
  shows "CHR ''-'' \<notin> set r"
proof -
  from assms obtain d body where
    r: "r = d # body \<or> r = d # body @ [CHR 0x0A]" and d: "re_nonzero_digit d"
    and b: "\<forall>c\<in>set body. re_digit c"
    unfolding chkrelease_iff by blast
  from r have "set r \<subseteq> insert d (insert (CHR 0x0A) (set body))" by auto
  moreover from d have "CHR ''-'' \<noteq> d" using re_nonzero_digit_not_hyphen by blast
  moreover from b have "CHR ''-'' \<notin> set body" using re_digit_not_hyphen by blast
  moreover have "CHR ''-'' \<noteq> CHR 0x0A" by simp
  ultimately show ?thesis by blast
qed

lemma cygpackage_cases:
  "cygpackage s = INVALID_PACKAGE \<or>
   (\<exists>n v r. s = n @ ''-'' @ v @ ''-'' @ r @ SUFFIX \<and>
      cygpackage s = CygPackage (Some n) (Some v) (Some r) \<and> chkversion v \<and> chkrelease r)"
proof (cases "cygpackage s = INVALID_PACKAGE")
  case True
  then show ?thesis by simp
next
  case False
  let ?p = "take (length s - length SUFFIX) s"
  let ?pack = "rsplit CHR ''-'' 2 ?p"
  from False have e: "endswith s SUFFIX" and c: "chkpackage ?pack"
    and v: "cygpackage s = CygPackage (Some (?pack ! 0)) (Some (?pack ! 1)) (Some (?pack ! 2))"
    by (auto simp: cygpackage_def Let_def split: if_splits)
  from e have s: "s = ?p @ SUFFIX"
    unfolding endswith_def by (metis append_take_drop_id)
  from c have len: "length ?pack = 3" and cv: "chkversion (?pack ! 1)" and cr: "chkrelease (?pack ! 2)"
    by (auto simp: chkpackage_def)
  from rsplit_three [OF len] have "?p = ?pack ! 0 @ ''-'' @ ?pack ! 1 @ ''-'' @ ?pack ! 2" .
  with s have "s = ?pack ! 0 @ ''-'' @ ?pack ! 1 @ ''-'' @ ?pack ! 2 @ SUFFIX"
    by (metis append.assoc)
  with v cv cr show ?thesis by blast
qed

lemma cygpackage_build:
  assumes "chkversion v" and "chkrelease r"
  shows "cygpackage (n @ ''-'' @ v @ ''-'' @ r @ SUFFIX) = CygPackage (Some n) (Some v) (Some r)"
proof -
  let ?p = "n @ ''-'' @ v @ ''-'' @ r"
  let ?s = "n @ ''-'' @ v @ ''-'' @ r @ SUFFIX"
  have s: "?s = ?p @ SUFFIX" by simp
  have e: "endswith ?s SUFFIX"
    unfolding endswith_iff using s by blast
  have t: "take (length ?s - length SUFFIX) ?s = ?p" by simp
  have pk: "rsplit CHR ''-'' 2 ?p = [n, v, r]"
    using assms by (intro rsplit_name_version_release chkversion_no_hyphen chkrelease_no_hyphen)
  have "chkpackage [n, v, r]" using assms by (simp add: chkpackage_def)
  with e t pk show ?thesis
    unfolding cygpackage_def Let_def by (simp del: append_assoc append.simps)
qed

lemma packname_valid:
  "packname (CygPackage (Some n) (Some v) (Some r)) = n @ ''-'' @ v @ ''-'' @ r @ SUFFIX"
  by (simp add: packname_def INVALID_PACKAGE_def fmt_def)

lemma packname_cygpackage: "ispackfile f \<Longrightarrow> packname (cygpackage f) = f"
  using cygpackage_cases [of f] by (auto simp: ispackfile_def packname_valid)

section \<open>Properties of sorting, grouping, selection and removal\<close>

lemma version_release_Inr:
  "version p = Some v \<Longrightarrow> release p = Some r \<Longrightarrow> version_release p = Inr (vr p)"
  by (simp add: version_release_def vr_def fmt_def)

lemma version_release_Inr_iff:
  "(\<exists>k. version_release p = Inr k) \<longleftrightarrow> version_release p = Inr (vr p)"
  by (auto simp: version_release_def vr_def fmt_def split: option.splits)

lemma sort_keys_Inr:
  "\<forall>x\<in>set xs. f x = Inr (k x) \<Longrightarrow> sort_keys f xs = Inr (map (\<lambda>x. (k x, x)) xs)"
  by (induction xs) auto

lemma insort_key_decorated:
  "insort_key fst (k x, x) (map (\<lambda>x. (k x, x)) ys) = map (\<lambda>x. (k x, x)) (insort_key k x ys)"
  by (induction ys) auto

lemma sort_key_decorated:
  "sort_key fst (map (\<lambda>x. (k x, x)) xs) = map (\<lambda>x. (k x, x)) (sort_key k xs)"
  by (induction xs) (auto simp: insort_key_decorated)

lemma py_sort_Inr:
  assumes "\<forall>x\<in>set xs. f x = Inr (k x)"
  shows "py_sort f xs = Inr (sort_key k xs)"
  by (simp add: py_sort_def sort_keys_Inr [OF assms] sort_key_decorated comp_def)

lemma sort_key_nonempty: "xs \<noteq> [] \<Longrightarrow> sort_key k xs \<noteq> []"
  by (metis length_sort length_0_conv)

lemma sorted_le_last: "sorted ys \<Longrightarrow> y \<in> set ys \<Longrightarrow> y \<le> last ys"
  by (induction ys) auto

lemma sort_key_last_max:
  assumes "x \<in> set xs"
  shows "k x \<le> k (last (sort_key k xs))"
proof -
  let ?s = "sort_key k xs"
  from assms have "xs \<noteq> []" by auto
  then have ne: "?s \<noteq> []" by (rule sort_key_nonempty)
  have "sorted (map k ?s)" by (rule sorted_sort_key)
  moreover from assms have "k x \<in> set (map k ?s)" by simp
  ultimately have "k x \<le> last (map k ?s)" by (rule sorted_le_last)
  with ne show ?thesis by (simp add: last_map)
qed

lemma kept_in_set: "vs \<noteq> [] \<Longrightarrow> kept vs \<in> set vs"
proof -
  assume "vs \<noteq> []"
  then have "sort_key vr vs \<noteq> []" by (metis length_sort length_0_conv)
  then have "last (sort_key vr vs) \<in> set (sort_key vr vs)" by (rule last_in_set)
  then show ?thesis by (simp add: kept_def)
qed

lemma kept_discarded: "vs \<noteq> [] \<Longrightarrow> sort_key vr vs = discarded vs @ [kept vs]"
proof -
  assume "vs \<noteq> []"
  then have "sort_key vr vs \<noteq> []" by (metis length_sort length_0_conv)
  then show ?thesis by (simp add: kept_def discarded_def)
qed

lemma mset_kept_discarded: "vs \<noteq> [] \<Longrightarrow> mset (kept vs # discarded vs) = mset vs"
proof -
  assume "vs \<noteq> []"
  then have "sort_key vr vs = discarded vs @ [kept vs]" by (rule kept_discarded)
  then have "mset (sort_key vr vs) = mset (discarded vs @ [kept vs])" by (rule arg_cong)
  then show ?thesis by simp
qed

lemma clean_loop_step:
  assumes "vs \<noteq> []" and "\<forall>p\<in>set vs. version_release p = Inr (vr p)"
  shows "clean_loop root trash (vs # pks) =
    clean_loop root
      (if discarded vs = [] then trash
       else AList.update (kept vs) (map (\<lambda>v. path_join root (packname v)) (discarded vs)) trash)
      pks"
proof -
  have s: "py_sort version_release vs = Inr (sort_key vr vs)"
    using assms(2) by (rule py_sort_Inr)
  from assms(1) have "sort_key vr vs \<noteq> []" by (metis length_sort length_0_conv)
  then have p: "list_pop (sort_key vr vs) = Inr (kept vs, discarded vs)"
    by (simp add: list_pop_def kept_def discarded_def)
  show ?thesis by (simp add: s p)
qed

lemma update_fresh: "k \<notin> fst ` set al \<Longrightarrow> AList.update k v al = al @ [(k, v)]"
  by (induction al) auto

lemma clean_loop_entries:
  assumes "\<forall>vs\<in>set pks. vs \<noteq> [] \<and> (\<forall>p\<in>set vs. version_release p = Inr (vr p))"
    and "distinct (map kept pks)"
    and "\<forall>vs\<in>set pks. kept vs \<notin> fst ` set trash"
  shows "clean_loop root trash pks = Inr (trash @ concat (map (entry root) pks))"
  using assms
proof (induction pks arbitrary: trash)
  case Nil
  show ?case by simp
next
  case (Cons vs pks)
  let ?t = "if discarded vs = [] then trash
       else AList.update (kept vs) (map (\<lambda>v. path_join root (packname v)) (discarded vs)) trash"
  from Cons.prems have vs: "vs \<noteq> []" "\<forall>p\<in>set vs. version_release p = Inr (vr p)" by auto
  from Cons.prems have fresh: "kept vs \<notin> fst ` set trash" by simp
  have t: "?t = trash @ entry root vs"
    using fresh by (simp add: entry_def update_fresh)
  have keys: "fst ` set ?t \<subseteq> insert (kept vs) (fst ` set trash)"
    unfolding t by (auto simp: entry_def)
  have "clean_loop root trash (vs # pks) = clean_loop root ?t pks"
    using vs by (rule clean_loop_step)
  also have "\<dots> = Inr (?t @ concat (map (entry root) pks))"
  proof (rule Cons.IH)
    show "\<forall>vs\<in>set pks. vs \<noteq> [] \<and> (\<forall>p\<in>set vs. version_release p = Inr (vr p))"
      using Cons.prems(1) by simp
    show "distinct (map kept pks)" using Cons.prems(2) by simp
    show "\<forall>us\<in>set pks. kept us \<notin> fst ` set ?t"
    proof
      fix us assume us: "us \<in> set pks"
      from Cons.prems(2) have "kept vs \<notin> kept ` set pks" by simp
      with us have "kept us \<noteq> kept vs" by (metis imageI)
      moreover from us Cons.prems(3) have "kept us \<notin> fst ` set trash" by simp
      ultimately show "kept us \<notin> fst ` set ?t" using keys by blast
    qed
  qed
  also have "?t @ concat (map (entry root) pks) = trash @ concat (map (entry root) (vs # pks))"
    unfolding t by simp
  finally show ?case .
qed

lemma remove_files_append:
  "remove_files (xs @ ys) w =
     (case remove_files xs w of Inl e \<Rightarrow> Inl e | Inr w' \<Rightarrow> remove_files ys w')"
  by (induction xs arbitrary: w) (auto split: sum.splits)

lemma rmtrash_loop_concat: "rmtrash_loop trash w = remove_files (concat (map snd trash)) w"
  by (induction trash w rule: rmtrash_loop.induct) (auto simp: remove_files_append split: sum.splits)

lemma remove_files_ok:
  "distinct R \<Longrightarrow> set R \<subseteq> fs w \<Longrightarrow> remove_files R w = Inr (w\<lparr>fs := fs w - set R\<rparr>)"
proof (induction R arbitrary: w)
  case Nil
  show ?case by simp
next
  case (Cons f R)
  from Cons.prems have f: "f \<in> fs w" by simp
  let ?w = "w\<lparr>fs := fs w - {f}\<rparr>"
  from Cons.prems have "distinct R" "set R \<subseteq> fs ?w" by auto
  then have "remove_files R ?w = Inr (?w\<lparr>fs := fs ?w - set R\<rparr>)" by (rule Cons.IH)
  moreover have "fs w - {f} - set R = fs w - set (f # R)" by auto
  ultimately show ?case using f by (simp add: os_remove_def)
qed

lemma fs_rmtrash_v: "fs (rmtrash_v trash w) = fs w"
  by (induction trash w rule: rmtrash_v.induct) auto

lemma concat_groupby: "concat (groupby f xs) = xs"
  by (induction f xs rule: groupby.induct) auto

lemma groupby_nonempty: "g \<in> set (groupby f xs) \<Longrightarrow> g \<noteq> []"
  by (induction f xs rule: groupby.induct) auto

lemma sorted_dropWhile_keys:
  "sorted (map f (x # xs)) \<Longrightarrow> z \<in> set (dropWhile (\<lambda>y. f y = f x) xs) \<Longrightarrow> f z \<noteq> f x"
proof (induction xs)
  case Nil
  then show ?case by simp
next
  case (Cons b xs)
  show ?case
  proof (cases "f b = f x")
    case True
    with Cons.prems have "sorted (map f (x # xs))" "z \<in> set (dropWhile (\<lambda>y. f y = f x) xs)"
      by auto
    then show ?thesis by (rule Cons.IH)
  next
    case False
    with Cons.prems have "z \<in> set (b # xs)" by simp
    with Cons.prems(1) have "f b \<le> f z" by auto
    moreover from Cons.prems(1) have "f x \<le> f b" by simp
    ultimately show ?thesis using False by auto
  qed
qed

lemma groupby_sorted:
  "sorted (map f xs) \<Longrightarrow> g \<in> set (groupby f xs) \<Longrightarrow>
     \<exists>x\<in>set xs. g = filter (\<lambda>y. f y = f x) xs"
proof (induction f xs rule: groupby.induct)
  case (1 f)
  then show ?case by simp
next
  case (2 f x xs)
  let ?P = "\<lambda>y. f y = f x"
  have tw: "takeWhile ?P xs = filter ?P xs"
    by (rule takeWhile_eq_filter) (use sorted_dropWhile_keys [OF "2.prems"(1)] in blast)
  from "2.prems"(2) consider "g = x # takeWhile ?P xs" | "g \<in> set (groupby f (dropWhile ?P xs))"
    by auto
  then show ?case
  proof cases
    case 1
    with tw have "g = filter ?P (x # xs)" by simp
    then show ?thesis by auto
  next
    case 2
    have "sorted (map f (dropWhile ?P xs))"
      using "2.prems"(1) by (simp add: sorted_map)
    with 2 "2.IH" obtain z where z: "z \<in> set (dropWhile ?P xs)"
      and g: "g = filter (\<lambda>y. f y = f z) (dropWhile ?P xs)" by blast
    from z have zx: "f z \<noteq> f x" by (rule sorted_dropWhile_keys [OF "2.prems"(1)])
    have "filter (\<lambda>y. f y = f z) xs
        = filter (\<lambda>y. f y = f z) (takeWhile ?P xs) @ filter (\<lambda>y. f y = f z) (dropWhile ?P xs)"
      by (metis filter_append takeWhile_dropWhile_id)
    moreover have "filter (\<lambda>y. f y = f z) (takeWhile ?P xs) = []"
      using zx by (auto simp: filter_empty_conv dest: set_takeWhileD)
    ultimately have "g = filter (\<lambda>y. f y = f z) (x # xs)" using g zx by auto
    moreover from z have "z \<in> set (x # xs)" by (auto dest: set_dropWhileD)
    ultimately show ?thesis by blast
  qed
qed

lemma groupby_distinct_keys: "distinct (map f xs) \<Longrightarrow> groupby f xs = map (\<lambda>x. [x]) xs"
proof (induction xs)
  case Nil
  show ?case by simp
next
  case (Cons x xs)
  from Cons.prems have "f x \<notin> f ` set xs" by simp
  then have "\<forall>y\<in>set xs. f y \<noteq> f x" by (metis imageI)
  then have "takeWhile (\<lambda>y. f y = f x) xs = []" "dropWhile (\<lambda>y. f y = f x) xs = xs"
    by (cases xs; simp)+
  with Cons show ?case by simp
qed

lemma distinct_map_chosen:
  "distinct (concat G) \<Longrightarrow> \<forall>g\<in>set G. h g \<in> set g \<Longrightarrow> distinct (map h G)"
proof (induction G)
  case Nil
  show ?case by simp
next
  case (Cons g G)
  have "h g \<notin> h ` set G"
  proof
    assume "h g \<in> h ` set G"
    then obtain g' where g': "g' \<in> set G" "h g = h g'" by blast
    with Cons.prems(2) have "h g \<in> set g" "h g \<in> set g'" by auto
    with g' Cons.prems(1) show False by auto
  qed
  with Cons show ?case by simp
qed

section \<open>Package files and their identities\<close>

lemma path_join_relative:
  "CHR ''/'' \<notin> set b \<Longrightarrow>
     path_join a b = (if a = [] \<or> last a = CHR ''/'' then a else a @ ''/'') @ b"
  by (cases b) (auto simp: path_join_def)

lemma path_join_inject:
  assumes "CHR ''/'' \<notin> set b" and "CHR ''/'' \<notin> set c" and "path_join a b = path_join a c"
  shows "b = c"
  using assms(3) unfolding path_join_relative [OF assms(1)] path_join_relative [OF assms(2)]
  by simp

lemma ispackfile_fields:
  assumes "ispackfile f"
  obtains n v r where "cygpackage f = CygPackage (Some n) (Some v) (Some r)"
    and "f = n @ ''-'' @ v @ ''-'' @ r @ SUFFIX" and "chkversion v" and "chkrelease r"
  using assms cygpackage_cases [of f] unfolding ispackfile_def by blast

lemma ispackfile_version_release:
  "ispackfile f \<Longrightarrow> version_release (cygpackage f) = Inr (vr (cygpackage f))"
  by (erule ispackfile_fields) (simp add: version_release_Inr)

lemma ispackfile_name_key:
  assumes "ispackfile f"
  shows "f = fmt (package (cygpackage f)) @ ''-'' @ vr (cygpackage f) @ SUFFIX"
  using assms by (rule ispackfile_fields) (simp add: vr_def fmt_def)

lemma same_name_key_same_file:
  assumes "ispackfile f" and "ispackfile g"
    and "package (cygpackage f) = package (cygpackage g)"
    and "vr (cygpackage f) = vr (cygpackage g)"
  shows "f = g"
  using ispackfile_name_key [OF assms(1)] ispackfile_name_key [OF assms(2)] assms(3,4)
  by simp

lemma cygpackage_inj: "ispackfile f \<Longrightarrow> ispackfile g \<Longrightarrow> cygpackage f = cygpackage g \<Longrightarrow> f = g"
  by (rule same_name_key_same_file) simp_all

lemma superseded_iff:
  "superseded files f \<longleftrightarrow>
     ispackfile f \<and>
     (\<exists>g\<in>set files. ispackfile g \<and> package (cygpackage g) = package (cygpackage f) \<and>
        vr (cygpackage f) < vr (cygpackage g))"
proof (cases "ispackfile f")
  case False
  then show ?thesis by (simp add: superseded_def)
next
  case True
  have "(case (version_release (cygpackage f), version_release (cygpackage g)) of
           (Inr kf, Inr kg) \<Rightarrow> kf < kg | _ \<Rightarrow> False) \<longleftrightarrow> vr (cygpackage f) < vr (cygpackage g)"
    if "ispackfile g" for g
    by (simp add: ispackfile_version_release [OF True] ispackfile_version_release [OF that])
  then show ?thesis
    unfolding superseded_def list_ex_iff using True by auto
qed

section \<open>The groups of one directory\<close>

lemma set_discarded:
  assumes "distinct vs" and "vs \<noteq> []"
  shows "set (discarded vs) = set vs - {kept vs}"
proof -
  have s: "sort_key vr vs = discarded vs @ [kept vs]" using assms(2) by (rule kept_discarded)
  have "distinct (sort_key vr vs)" using assms(1) by simp
  then have "distinct (discarded vs @ [kept vs])" by (simp only: s)
  then have n: "kept vs \<notin> set (discarded vs)" by simp
  have "set (sort_key vr vs) = set vs" by simp
  then have "set (discarded vs @ [kept vs]) = set vs" by (simp only: s)
  then have "insert (kept vs) (set (discarded vs)) = set vs" by simp
  with n show ?thesis by blast
qed

lemma distinct_discarded: "distinct vs \<Longrightarrow> distinct (discarded vs)"
  by (simp add: discarded_def distinct_butlast)

lemma set_discarded_subset: "set (discarded vs) \<subseteq> set vs"
proof
  fix x assume "x \<in> set (discarded vs)"
  then have "x \<in> set (sort_key vr vs)" unfolding discarded_def by (rule in_set_butlastD)
  then show "x \<in> set vs" by simp
qed

lemma kept_max: "u \<in> set vs \<Longrightarrow> vr u \<le> vr (kept vs)"
  unfolding kept_def by (rule sort_key_last_max)

lemma discarded_iff:
  assumes "distinct vs" and "v \<in> set vs" and "inj_on vr (set vs)"
  shows "v \<in> set (discarded vs) \<longleftrightarrow> (\<exists>u\<in>set vs. vr v < vr u)"
proof -
  from assms(2) have ne: "vs \<noteq> []" by auto
  then have k: "kept vs \<in> set vs" by (rule kept_in_set)
  have d: "set (discarded vs) = set vs - {kept vs}" using assms(1) ne by (rule set_discarded)
  show ?thesis
  proof
    assume "v \<in> set (discarded vs)"
    with d have "v \<noteq> kept vs" by simp
    with assms(2,3) k have "vr v \<noteq> vr (kept vs)" by (auto dest: inj_onD)
    moreover have "vr v \<le> vr (kept vs)" using assms(2) by (rule kept_max)
    ultimately have "vr v < vr (kept vs)" by simp
    with k show "\<exists>u\<in>set vs. vr v < vr u" by blast
  next
    assume "\<exists>u\<in>set vs. vr v < vr u"
    then obtain u where u: "u \<in> set vs" "vr v < vr u" by blast
    from u(1) have "vr u \<le> vr (kept vs)" by (rule kept_max)
    with u(2) have "v \<noteq> kept vs" by auto
    with d assms(2) show "v \<in> set (discarded vs)" by simp
  qed
qed

lemma distinct_concat_map_sub:
  "distinct (concat G) \<Longrightarrow> \<forall>g\<in>set G. distinct (d g) \<and> set (d g) \<subseteq> set g \<Longrightarrow>
     distinct (concat (map d G))"
proof (induction G)
  case Nil
  show ?case by simp
next
  case (Cons g G)
  from Cons.prems have "set (d g) \<inter> set (concat (map d G)) \<subseteq> set g \<inter> set (concat G)"
    by fastforce
  moreover from Cons.prems(1) have "set g \<inter> set (concat G) = {}" by simp
  ultimately have "set (d g) \<inter> set (concat (map d G)) = {}" by blast
  moreover from Cons have "distinct (concat (map d G))" by simp
  moreover from Cons.prems(2) have "distinct (d g)" by simp
  ultimately show ?case by simp
qed

lemma paths_of_entries:
  "concat (map snd (concat (map (entry root) G)))
     = map (\<lambda>v. path_join root (packname v)) (concat (map discarded G))"
  by (induction G) (auto simp: entry_def)

lemma keys_of_entries:
  "fst ` set (concat (map (entry root) G)) = kept ` {g \<in> set G. discarded g \<noteq> []}"
  by (induction G) (auto simp: entry_def)

text \<open>The groups of a list of identities.\<close>

lemma groups_facts:
  assumes "distinct P" and "g \<in> set (groupby package (sort_key package P))"
  shows "g \<noteq> []" and "distinct g" and "set g \<subseteq> set P"
    and "\<exists>x\<in>set P. set g = {y \<in> set P. package y = package x}"
proof -
  let ?S = "sort_key package P"
  from assms(2) show "g \<noteq> []" by (rule groupby_nonempty)
  have "sorted (map package ?S)" by (rule sorted_sort_key)
  from groupby_sorted [OF this assms(2)]
  obtain x where x: "x \<in> set ?S" "g = filter (\<lambda>y. package y = package x) ?S" by blast
  from x(2) assms(1) show "distinct g" by simp
  from x(2) show "set g \<subseteq> set P" by auto
  from x have "x \<in> set P" "set g = {y \<in> set P. package y = package x}" by auto
  then show "\<exists>x\<in>set P. set g = {y \<in> set P. package y = package x}" by blast
qed

lemma groups_cover:
  assumes "v \<in> set P"
  shows "\<exists>g\<in>set (groupby package (sort_key package P)). v \<in> set g"
proof -
  have "set (concat (groupby package (sort_key package P))) = set P"
    by (simp only: concat_groupby set_sort)
  with assms show ?thesis by auto
qed

lemma groups_distinct_concat:
  "distinct P \<Longrightarrow> distinct (concat (groupby package (sort_key package P)))"
  by (simp only: concat_groupby distinct_sort)

lemma clean_groups:
  assumes "distinct P" and "\<forall>p\<in>set P. version_release p = Inr (vr p)"
  shows "clean root (groupby package (sort_key package P))
       = Inr (concat (map (entry root) (groupby package (sort_key package P))))"
proof -
  let ?G = "groupby package (sort_key package P)"
  have g: "\<forall>vs\<in>set ?G. vs \<noteq> [] \<and> (\<forall>p\<in>set vs. version_release p = Inr (vr p))"
    using groups_facts(1,3) [OF assms(1)] assms(2) by blast
  have "\<forall>vs\<in>set ?G. kept vs \<in> set vs"
    using groups_facts(1) [OF assms(1)] kept_in_set by blast
  with groups_distinct_concat [OF assms(1)] have k: "distinct (map kept ?G)"
    by (rule distinct_map_chosen)
  have "clean_loop root [] ?G = Inr ([] @ concat (map (entry root) ?G))"
    using g k by (rule clean_loop_entries) simp
  then show ?thesis by (simp add: clean_def)
qed

lemma discarded_in_groups_iff:
  assumes "distinct P" and "v \<in> set P"
    and "\<forall>p\<in>set P. \<forall>q\<in>set P. package p = package q \<and> vr p = vr q \<longrightarrow> p = q"
  shows "(\<exists>g\<in>set (groupby package (sort_key package P)). v \<in> set (discarded g))
     \<longleftrightarrow> (\<exists>u\<in>set P. package u = package v \<and> vr v < vr u)"
proof
  let ?G = "groupby package (sort_key package P)"
  have inj: "inj_on vr (set g)" if "g \<in> set ?G" for g
  proof (rule inj_onI)
    fix p q assume pq: "p \<in> set g" "q \<in> set g" "vr p = vr q"
    from groups_facts(4) [OF assms(1) that] obtain x where
      "set g = {y \<in> set P. package y = package x}" by blast
    with pq have "p \<in> set P" "q \<in> set P" "package p = package q" by auto
    with pq(3) assms(3) show "p = q" by blast
  qed
  {
    assume "\<exists>g\<in>set ?G. v \<in> set (discarded g)"
    then obtain g where g: "g \<in> set ?G" "v \<in> set (discarded g)" by blast
    from g(2) have vg: "v \<in> set g" using set_discarded_subset by blast
    from groups_facts(2) [OF assms(1) g(1)] have dg: "distinct g" .
    from discarded_iff [OF dg vg inj [OF g(1)]] g(2)
    obtain u where u: "u \<in> set g" "vr v < vr u" by blast
    from groups_facts(4) [OF assms(1) g(1)] obtain x where
      "set g = {y \<in> set P. package y = package x}" by blast
    with u(1) vg have "u \<in> set P" "package u = package v" by auto
    with u(2) show "\<exists>u\<in>set P. package u = package v \<and> vr v < vr u" by blast
  }
  {
    assume "\<exists>u\<in>set P. package u = package v \<and> vr v < vr u"
    then obtain u where u: "u \<in> set P" "package u = package v" "vr v < vr u" by blast
    from groups_cover [OF assms(2)] obtain g where g: "g \<in> set ?G" "v \<in> set g" by blast
    from groups_facts(4) [OF assms(1) g(1)] obtain x where
      x: "set g = {y \<in> set P. package y = package x}" by blast
    with g(2) u(1,2) have "u \<in> set g" by auto
    with u(3) have "\<exists>u\<in>set g. vr v < vr u" by blast
    with discarded_iff [OF groups_facts(2) [OF assms(1) g(1)] g(2) inj [OF g(1)]]
    have "v \<in> set (discarded g)" by simp
    with g(1) show "\<exists>g\<in>set ?G. v \<in> set (discarded g)" by blast
  }
qed

section \<open>The effect of pruning one directory\<close>

lemma prune_unfold:
  "prune root files a w =
     (if length (filter ispackfile files) = 1 then Inr w
      else case clean root (name_groups files) of Inl e \<Rightarrow> Inl e | Inr trash \<Rightarrow> rmtrash trash a w)"
  by (simp add: prune_def name_groups_def Let_def)

lemma rmtrash_Nil: "rmtrash [] a w = Inr w"
  by (simp add: rmtrash_def)

lemma rmtrash_ok:
  assumes "distinct (concat (map snd trash))" and "set (concat (map snd trash)) \<subseteq> fs w"
  shows "\<exists>w'. rmtrash trash a w = Inr w' \<and> fs w' = fs w - set (concat (map snd trash))"
proof -
  let ?w = "if verbose a then rmtrash_v trash w else w"
  have f: "fs ?w = fs w" by (simp add: fs_rmtrash_v)
  with assms(2) have "set (concat (map snd trash)) \<subseteq> fs ?w" by simp
  with assms(1) have "remove_files (concat (map snd trash)) ?w
      = Inr (?w\<lparr>fs := fs ?w - set (concat (map snd trash))\<rparr>)"
    by (rule remove_files_ok)
  then have "rmtrash trash a w = Inr (?w\<lparr>fs := fs ?w - set (concat (map snd trash))\<rparr>)"
    by (simp only: rmtrash_def rmtrash_loop_concat)
  moreover have "fs (?w\<lparr>fs := fs ?w - set (concat (map snd trash))\<rparr>)
      = fs w - set (concat (map snd trash))"
    using f by simp
  ultimately show ?thesis by blast
qed

text \<open>The identities of the package files of a listing.\<close>

lemma parsed_valid:
  "\<forall>p\<in>set (map cygpackage (filter ispackfile files)). version_release p = Inr (vr p)"
  by (auto simp: ispackfile_version_release)

lemma parsed_distinct:
  assumes "distinct files"
  shows "distinct (map cygpackage (filter ispackfile files))"
proof -
  have "inj_on cygpackage (set (filter ispackfile files))"
    by (rule inj_onI) (auto intro: cygpackage_inj)
  with assms show ?thesis by (simp add: distinct_map)
qed

lemma parsed_name_key:
  "\<forall>p\<in>set (map cygpackage (filter ispackfile files)).
   \<forall>q\<in>set (map cygpackage (filter ispackfile files)).
     package p = package q \<and> vr p = vr q \<longrightarrow> p = q"
proof (intro ballI impI)
  fix p q
  assume p: "p \<in> set (map cygpackage (filter ispackfile files))"
    and q: "q \<in> set (map cygpackage (filter ispackfile files))"
    and e: "package p = package q \<and> vr p = vr q"
  from p obtain f where f: "ispackfile f" "p = cygpackage f" by auto
  from q obtain g where g: "ispackfile g" "q = cygpackage g" by auto
  from e have e1: "package (cygpackage f) = package (cygpackage g)"
    and e2: "vr (cygpackage f) = vr (cygpackage g)"
    unfolding f(2) g(2) by blast+
  from f(1) g(1) e1 e2 have "f = g" by (rule same_name_key_same_file)
  then show "p = q" unfolding f(2) g(2) by (rule arg_cong)
qed

lemma discarded_files:
  assumes "distinct files"
  shows "set (concat (map discarded (name_groups files)))
       = cygpackage ` {f \<in> set files. superseded files f}"
proof -
  let ?P = "map cygpackage (filter ispackfile files)"
  let ?G = "groupby package (sort_key package ?P)"
  have dP: "distinct ?P" using assms by (rule parsed_distinct)
  have iff: "(\<exists>g\<in>set ?G. v \<in> set (discarded g))
      \<longleftrightarrow> (\<exists>u\<in>set ?P. package u = package v \<and> vr v < vr u)" if "v \<in> set ?P" for v
    using dP that parsed_name_key by (rule discarded_in_groups_iff)
  show ?thesis
  proof (intro equalityI subsetI)
    fix v assume "v \<in> set (concat (map discarded (name_groups files)))"
    then obtain g where g: "g \<in> set ?G" "v \<in> set (discarded g)"
      by (auto simp: name_groups_def)
    from g(2) have "v \<in> set g" using set_discarded_subset by blast
    with groups_facts(3) [OF dP g(1)] have vP: "v \<in> set ?P" by blast
    with iff g obtain u where u: "u \<in> set ?P" "package u = package v" "vr v < vr u" by blast
    from vP obtain f where f: "f \<in> set files" "ispackfile f" "v = cygpackage f" by auto
    from u(1) obtain h where h: "h \<in> set files" "ispackfile h" "u = cygpackage h" by auto
    from f h u have "superseded files f" unfolding superseded_iff by blast
    with f show "v \<in> cygpackage ` {f \<in> set files. superseded files f}" by blast
  next
    fix v assume "v \<in> cygpackage ` {f \<in> set files. superseded files f}"
    then obtain f where f: "f \<in> set files" "superseded files f" "v = cygpackage f" by blast
    from f(2) obtain h where pf: "ispackfile f" and h: "h \<in> set files" "ispackfile h"
      "package (cygpackage h) = package (cygpackage f)" "vr (cygpackage f) < vr (cygpackage h)"
      unfolding superseded_iff by blast
    from f pf have vP: "v \<in> set ?P" by simp
    from h have "cygpackage h \<in> set ?P" by simp
    with h(3,4) f(3) have "\<exists>u\<in>set ?P. package u = package v \<and> vr v < vr u" by blast
    with iff [OF vP] obtain g where "g \<in> set ?G" "v \<in> set (discarded g)" by blast
    then show "v \<in> set (concat (map discarded (name_groups files)))"
      by (auto simp: name_groups_def)
  qed
qed

lemma removed_paths:
  assumes "distinct files"
  shows "set (map (\<lambda>v. path_join root (packname v)) (concat (map discarded (name_groups files))))
       = path_join root ` {f \<in> set files. superseded files f}"
proof -
  let ?A = "{f \<in> set files. superseded files f}"
  have "set (map (\<lambda>v. path_join root (packname v)) (concat (map discarded (name_groups files))))
      = (\<lambda>v. path_join root (packname v)) ` cygpackage ` ?A"
    by (simp only: set_map discarded_files [OF assms])
  also have "\<dots> = (\<lambda>f. path_join root (packname (cygpackage f))) ` ?A"
    by (simp only: image_image)
  also have "\<dots> = path_join root ` ?A"
  proof (rule image_cong [OF refl])
    fix f assume "f \<in> ?A"
    then have "ispackfile f" by (simp add: superseded_def)
    then show "path_join root (packname (cygpackage f)) = path_join root f"
      by (simp only: packname_cygpackage)
  qed
  finally show ?thesis .
qed

lemma removed_distinct:
  assumes "distinct files" and "\<forall>f\<in>set files. CHR ''/'' \<notin> set f"
  shows "distinct (map (\<lambda>v. path_join root (packname v)) (concat (map discarded (name_groups files))))"
proof -
  let ?P = "map cygpackage (filter ispackfile files)"
  let ?G = "groupby package (sort_key package ?P)"
  let ?D = "concat (map discarded ?G)"
  have dP: "distinct ?P" using assms(1) by (rule parsed_distinct)
  have "\<forall>g\<in>set ?G. distinct (discarded g) \<and> set (discarded g) \<subseteq> set g"
    using groups_facts(2) [OF dP] distinct_discarded set_discarded_subset by blast
  with groups_distinct_concat [OF dP] have dD: "distinct ?D" by (rule distinct_concat_map_sub)
  have "inj_on (\<lambda>v. path_join root (packname v)) (set ?D)"
  proof (rule inj_onI)
    fix p q
    assume p: "p \<in> set ?D" and q: "q \<in> set ?D"
      and e: "path_join root (packname p) = path_join root (packname q)"
    from p obtain f where f: "f \<in> set files" "superseded files f" "p = cygpackage f"
      using discarded_files [OF assms(1)] unfolding name_groups_def by blast
    from q obtain g where g: "g \<in> set files" "superseded files g" "q = cygpackage g"
      using discarded_files [OF assms(1)] unfolding name_groups_def by blast
    from f g have pf: "packname p = f" and pg: "packname q = g"
      by (simp_all add: superseded_def packname_cygpackage)
    from e have "path_join root f = path_join root g" by (simp only: pf pg)
    with assms(2) f(1) g(1) have "f = g" by (blast intro: path_join_inject)
    with f g show "p = q" by simp
  qed
  with dD show ?thesis unfolding name_groups_def by (simp add: distinct_map)
qed

lemma clean_name_groups:
  assumes "distinct files"
  shows "clean root (name_groups files) = Inr (concat (map (entry root) (name_groups files)))"
  unfolding name_groups_def
  using parsed_distinct [OF assms] parsed_valid by (rule clean_groups)

lemma single_package_file_not_superseded:
  assumes "length (filter ispackfile files) = 1"
  shows "{f \<in> set files. superseded files f} = {}"
proof -
  from assms obtain x where "filter ispackfile files = [x]"
    by (auto simp: length_Suc_conv)
  then have "set (filter ispackfile files) = {x}" by simp
  then have x: "h = x" if "h \<in> set files" "ispackfile h" for h
    using that by auto
  have "\<not> superseded files f" if ff: "f \<in> set files" for f
  proof
    assume "superseded files f"
    then obtain h where pf: "ispackfile f" and h: "h \<in> set files" "ispackfile h"
      "vr (cygpackage f) < vr (cygpackage h)"
      unfolding superseded_iff by blast
    from x [OF ff pf] x [OF h(1,2)] h(3) show False by simp
  qed
  then show ?thesis by blast
qed

lemma no_package_files_no_groups:
  "filter ispackfile files = [] \<Longrightarrow> name_groups files = []"
  by (simp add: name_groups_def)

lemma prune_effect:
  assumes "distinct files" and "\<forall>f\<in>set files. CHR ''/'' \<notin> set f"
    and "\<forall>f\<in>set files. path_join root f \<in> fs w"
  shows "\<exists>w'. prune root files a w = Inr w' \<and>
    fs w' = fs w - path_join root ` {f \<in> set files. superseded files f}"
proof (cases "length (filter ispackfile files) = 1")
  case True
  then have "prune root files a w = Inr w" by (simp add: prune_unfold)
  moreover from True have "{f \<in> set files. superseded files f} = {}"
    by (rule single_package_file_not_superseded)
  ultimately show ?thesis by auto
next
  case False
  let ?trash = "concat (map (entry root) (name_groups files))"
  let ?R = "map (\<lambda>v. path_join root (packname v)) (concat (map discarded (name_groups files)))"
  have R: "concat (map snd ?trash) = ?R" by (rule paths_of_entries)
  have set_R: "set ?R = path_join root ` {f \<in> set files. superseded files f}"
    using assms(1) by (rule removed_paths)
  have "distinct ?R" using assms(1,2) by (rule removed_distinct)
  moreover from set_R assms(3) have "set ?R \<subseteq> fs w" by auto
  ultimately obtain w' where "rmtrash ?trash a w = Inr w'" "fs w' = fs w - set ?R"
    using rmtrash_ok [of ?trash w a] unfolding R by blast
  with False clean_name_groups [OF assms(1), of root] set_R show ?thesis
    by (simp add: prune_unfold)
qed

lemma clean_loop_singletons:
  "\<forall>p\<in>set xs. version_release p = Inr (vr p) \<Longrightarrow>
     clean_loop root trash (map (\<lambda>x. [x]) xs) = Inr trash"
proof (induction xs)
  case Nil
  show ?case by simp
next
  case (Cons x xs)
  have "discarded [x] = []" by (simp add: discarded_def)
  moreover have "clean_loop root trash ([x] # map (\<lambda>x. [x]) xs) =
    clean_loop root
      (if discarded [x] = [] then trash
       else AList.update (kept [x]) (map (\<lambda>v. path_join root (packname v)) (discarded [x])) trash)
      (map (\<lambda>x. [x]) xs)"
    using Cons.prems by (intro clean_loop_step) simp_all
  ultimately show ?case using Cons by simp
qed

lemma prune_distinct_names:
  assumes "distinct (map (\<lambda>f. package (cygpackage f)) (filter ispackfile files))"
  shows "prune root files a w = Inr w"
proof -
  let ?P = "map cygpackage (filter ispackfile files)"
  let ?S = "sort_key package ?P"
  have "mset ?S = mset ?P" by simp
  then have "mset (map package ?S) = mset (map package ?P)" by (simp only: mset_map)
  then have "distinct (map package ?S) \<longleftrightarrow> distinct (map package ?P)"
    by (rule mset_eq_imp_distinct_iff)
  moreover from assms have "distinct (map package ?P)" by (simp add: comp_def)
  ultimately have "distinct (map package ?S)" by simp
  then have "name_groups files = map (\<lambda>x. [x]) ?S"
    unfolding name_groups_def by (rule groupby_distinct_keys)
  moreover have "\<forall>p\<in>set ?S. version_release p = Inr (vr p)"
    using parsed_valid by simp
  ultimately have "clean root (name_groups files) = Inr []"
    by (simp only: clean_def clean_loop_singletons)
  then show ?thesis by (simp add: prune_unfold rmtrash_Nil)
qed

lemma prune_at_most_one:
  assumes "length (filter ispackfile files) \<le> 1"
  shows "prune root files a w = Inr w"
proof (cases "length (filter ispackfile files) = 1")
  case True
  then show ?thesis by (simp add: prune_unfold)
next
  case False
  with assms have "filter ispackfile files = []" by (cases "filter ispackfile files") auto
  then have "name_groups files = []" by (rule no_package_files_no_groups)
  with False show ?thesis by (simp add: prune_unfold clean_def rmtrash_Nil)
qed

lemma set_update_subset: "set (AList.update k v al) \<subseteq> insert (k, v) (set al)"
  by (induction al) auto

lemma clean_loop_paths:
  assumes "\<forall>vs\<in>set pks. vs \<noteq> [] \<and> (\<forall>p\<in>set vs. version_release p = Inr (vr p))"
  shows "\<exists>t. clean_loop root trash pks = Inr t \<and>
    (\<forall>(p, ps)\<in>set t. (p, ps) \<in> set trash \<or>
       (\<exists>vs\<in>set pks. p \<in> set vs \<and> set ps \<subseteq> (\<lambda>v. path_join root (packname v)) ` set vs))"
  using assms
proof (induction pks arbitrary: trash)
  case Nil
  show ?case by auto
next
  case (Cons vs pks)
  let ?new = "map (\<lambda>v. path_join root (packname v)) (discarded vs)"
  let ?t = "if discarded vs = [] then trash else AList.update (kept vs) ?new trash"
  from Cons.prems have vs: "vs \<noteq> []" "\<forall>p\<in>set vs. version_release p = Inr (vr p)" by auto
  have step: "clean_loop root trash (vs # pks) = clean_loop root ?t pks"
    using vs by (rule clean_loop_step)
  from Cons.prems have "\<forall>vs\<in>set pks. vs \<noteq> [] \<and> (\<forall>p\<in>set vs. version_release p = Inr (vr p))"
    by simp
  from Cons.IH [OF this, of ?t] obtain t where t: "clean_loop root ?t pks = Inr t"
    and inv: "\<forall>(p, ps)\<in>set t. (p, ps) \<in> set ?t \<or>
       (\<exists>vs\<in>set pks. p \<in> set vs \<and> set ps \<subseteq> (\<lambda>v. path_join root (packname v)) ` set vs)"
    by blast
  have new: "set ?t \<subseteq> insert (kept vs, ?new) (set trash)"
    using set_update_subset [of "kept vs" ?new trash] by auto
  have k: "kept vs \<in> set vs" using vs(1) by (rule kept_in_set)
  have sub: "set ?new \<subseteq> (\<lambda>v. path_join root (packname v)) ` set vs"
    using set_discarded_subset [of vs] by auto
  have "\<forall>(p, ps)\<in>set t. (p, ps) \<in> set trash \<or>
       (\<exists>us\<in>set (vs # pks). p \<in> set us \<and> set ps \<subseteq> (\<lambda>v. path_join root (packname v)) ` set us)"
  proof (intro ballI)
    fix x assume xt: "x \<in> set t"
    obtain p ps where x: "x = (p, ps)" by (cases x)
    from inv xt x consider "(p, ps) \<in> set ?t"
      | "\<exists>vs\<in>set pks. p \<in> set vs \<and> set ps \<subseteq> (\<lambda>v. path_join root (packname v)) ` set vs"
      by blast
    then have "(p, ps) \<in> set trash \<or>
       (\<exists>us\<in>set (vs # pks). p \<in> set us \<and> set ps \<subseteq> (\<lambda>v. path_join root (packname v)) ` set us)"
    proof cases
      case 1
      with new have "(p, ps) \<in> set trash \<or> (p = kept vs \<and> ps = ?new)" by auto
      with k sub show ?thesis by auto
    next
      case 2
      then show ?thesis by auto
    qed
    then show "case x of (p, ps) \<Rightarrow> (p, ps) \<in> set trash \<or>
       (\<exists>us\<in>set (vs # pks). p \<in> set us \<and> set ps \<subseteq> (\<lambda>v. path_join root (packname v)) ` set us)"
      unfolding x by simp
  qed
  with step t show ?case by simp
qed

section \<open>More about the files that are kept\<close>

lemma name_groups_valid:
  "\<forall>vs\<in>set (name_groups files). vs \<noteq> [] \<and>
     (\<forall>p\<in>set vs. p \<in> cygpackage ` {f \<in> set files. ispackfile f} \<and> version_release p = Inr (vr p))"
proof (intro ballI conjI)
  let ?P = "map cygpackage (filter ispackfile files)"
  fix vs assume vs: "vs \<in> set (name_groups files)"
  then show "vs \<noteq> []" unfolding name_groups_def by (rule groupby_nonempty)
  fix p assume "p \<in> set vs"
  with vs have "p \<in> set (concat (name_groups files))" by auto
  then have p: "p \<in> set ?P" by (simp only: name_groups_def concat_groupby set_sort)
  then show "p \<in> cygpackage ` {f \<in> set files. ispackfile f}" by auto
  from p parsed_valid show "version_release p = Inr (vr p)" by blast
qed

lemma kept_not_superseded:
  assumes "distinct P" and "g \<in> set (groupby package (sort_key package P))"
    and "u \<in> set P" and "package u = package (kept g)"
  shows "vr u \<le> vr (kept g)"
proof -
  from groups_facts(1) [OF assms(1,2)] have "kept g \<in> set g" by (rule kept_in_set)
  moreover from groups_facts(4) [OF assms(1,2)] obtain x where
    "set g = {y \<in> set P. package y = package x}" by blast
  ultimately have "u \<in> set g" using assms(3,4) by auto
  then show ?thesis by (rule kept_max)
qed

lemma newest_exists:
  assumes "f \<in> set files" and "ispackfile f"
  shows "\<exists>g\<in>set files. ispackfile g \<and> package (cygpackage g) = package (cygpackage f) \<and>
    \<not> superseded files g"
proof -
  let ?M = "{g \<in> set files. ispackfile g \<and> package (cygpackage g) = package (cygpackage f)}"
  let ?K = "(\<lambda>g. vr (cygpackage g)) ` ?M"
  have fin: "finite ?K" by simp
  from assms have "f \<in> ?M" by simp
  then have ne: "?K \<noteq> {}" by blast
  from Max_in [OF fin ne] obtain g where g: "g \<in> ?M" "vr (cygpackage g) = Max ?K" by auto
  have "\<not> superseded files g"
  proof
    assume "superseded files g"
    then obtain h where h: "h \<in> set files" "ispackfile h"
      "package (cygpackage h) = package (cygpackage g)" "vr (cygpackage g) < vr (cygpackage h)"
      unfolding superseded_iff by blast
    with g(1) have "h \<in> ?M" by simp
    then have "vr (cygpackage h) \<in> ?K" by (rule imageI)
    with fin have "vr (cygpackage h) \<le> Max ?K" by (rule Max_ge)
    with h(4) g(2) show False by simp
  qed
  with g(1) show ?thesis by blast
qed

lemma newest_unique:
  assumes "g \<in> set files" "ispackfile g" "\<not> superseded files g"
    and "h \<in> set files" "ispackfile h" "\<not> superseded files h"
    and "package (cygpackage g) = package (cygpackage h)"
  shows "g = h"
proof -
  from assms(1,2,3,4,5,7) have "\<not> vr (cygpackage g) < vr (cygpackage h)"
    unfolding superseded_iff by auto
  moreover from assms(1,2,4,5,6,7) have "\<not> vr (cygpackage h) < vr (cygpackage g)"
    unfolding superseded_iff by auto
  ultimately have "vr (cygpackage g) = vr (cygpackage h)" by simp
  with assms(2,5,7) show ?thesis by (rule same_name_key_same_file)
qed

lemma superseded_path_iff:
  assumes "\<forall>f\<in>set files. CHR ''/'' \<notin> set f" and "f \<in> set files"
  shows "path_join root f \<in> path_join root ` {f \<in> set files. superseded files f}
     \<longleftrightarrow> superseded files f"
proof
  assume "path_join root f \<in> path_join root ` {f \<in> set files. superseded files f}"
  then obtain g where g: "g \<in> set files" "superseded files g" "path_join root f = path_join root g"
    by blast
  with assms have "f = g" by (blast intro: path_join_inject)
  with g(2) show "superseded files f" by simp
next
  assume "superseded files f"
  with assms(2) show "path_join root f \<in> path_join root ` {f \<in> set files. superseded files f}"
    by blast
qed

lemma trash_keys_newest:
  assumes "distinct files"
    and "(p, ps) \<in> set (concat (map (entry root) (name_groups files)))"
  shows "\<exists>f\<in>set files. ispackfile f \<and> p = cygpackage f \<and> \<not> superseded files f"
proof -
  let ?P = "map cygpackage (filter ispackfile files)"
  let ?G = "groupby package (sort_key package ?P)"
  have dP: "distinct ?P" using assms(1) by (rule parsed_distinct)
  from assms(2) have "p \<in> fst ` set (concat (map (entry root) (name_groups files)))"
    by (metis fst_conv imageI)
  then obtain g where g: "g \<in> set ?G" "p = kept g"
    unfolding keys_of_entries name_groups_def by blast
  from groups_facts(1) [OF dP g(1)] have "kept g \<in> set g" by (rule kept_in_set)
  with groups_facts(3) [OF dP g(1)] g(2) have "p \<in> set ?P" by blast
  then obtain f where f: "f \<in> set files" "ispackfile f" "p = cygpackage f" by auto
  have "\<not> superseded files f"
  proof
    assume "superseded files f"
    then obtain h where h: "h \<in> set files" "ispackfile h"
      "package (cygpackage h) = package (cygpackage f)" "vr (cygpackage f) < vr (cygpackage h)"
      unfolding superseded_iff by blast
    from h(1,2) have "cygpackage h \<in> set ?P" by simp
    moreover from h(3) f(3) g(2) have "package (cygpackage h) = package (kept g)" by simp
    ultimately have "vr (cygpackage h) \<le> vr (kept g)"
      using dP g(1) by (intro kept_not_superseded)
    with h(4) f(3) g(2) show False by simp
  qed
  with f show ?thesis by blast
qed

lemma trash_paths_concat: "(\<Union>(p, ps)\<in>set t. set ps) = set (concat (map snd t))"
  by (induction t) auto

section \<open>The claims\<close>

text \<open>
  Claim C1. For a non-empty group of identities whose version and release are strings,
  the sort of line 119 followed by \<open>pop\<close> takes out an element \<open>p\<close> whose string
  \<^verbatim>\<open>version-release\<close> is greatest in the lexicographic order of strings; the elements
  left are all the others (as a multiset, \<open>p\<close> and they are the group), and \<open>clean\<close> records
  under \<open>p\<close> the paths of exactly those, when there are any. For the versions \<^verbatim>\<open>9\<close> and
  \<^verbatim>\<open>10\<close> of release 1, version \<^verbatim>\<open>9\<close> is kept and \<^verbatim>\<open>10\<close> is discarded.
\<close>

theorem clean_keeps_lexicographic_maximum:
  "(vs \<noteq> [] \<and> (\<forall>q\<in>set vs. \<exists>k. version_release q = Inr k) \<longrightarrow>
     (\<exists>p rest.
        py_sort version_release vs = Inr (rest @ [p]) \<and>
        mset (p # rest) = mset vs \<and>
        (\<forall>q\<in>set vs. \<exists>kq kp. version_release q = Inr kq \<and> version_release p = Inr kp \<and> kq \<le> kp) \<and>
        clean root [vs] =
          Inr (if rest = [] then [] else [(p, map (\<lambda>v. path_join root (packname v)) rest)])))
   \<and> clean ''r'' [[CygPackage (Some ''p'') (Some ''9'') (Some ''1''),
                    CygPackage (Some ''p'') (Some ''10'') (Some ''1'')]]
       = Inr [(CygPackage (Some ''p'') (Some ''9'') (Some ''1''), [''r/p-10-1.tar.bz2''])]"
proof (intro conjI impI)
  assume h: "vs \<noteq> [] \<and> (\<forall>q\<in>set vs. \<exists>k. version_release q = Inr k)"
  then have ne: "vs \<noteq> []" and valid: "\<forall>q\<in>set vs. version_release q = Inr (vr q)"
    by (simp_all add: version_release_Inr_iff)
  have "py_sort version_release vs = Inr (sort_key vr vs)" using valid by (rule py_sort_Inr)
  then have a: "py_sort version_release vs = Inr (discarded vs @ [kept vs])"
    by (simp only: kept_discarded [OF ne])
  have b: "mset (kept vs # discarded vs) = mset vs" using ne by (rule mset_kept_discarded)
  have k: "kept vs \<in> set vs" using ne by (rule kept_in_set)
  have c: "\<forall>q\<in>set vs. \<exists>kq kp. version_release q = Inr kq \<and> version_release (kept vs) = Inr kp \<and> kq \<le> kp"
  proof
    fix q assume q: "q \<in> set vs"
    with valid have "version_release q = Inr (vr q)" by blast
    moreover from valid k have "version_release (kept vs) = Inr (vr (kept vs))" by blast
    moreover from q have "vr q \<le> vr (kept vs)" by (rule kept_max)
    ultimately show "\<exists>kq kp. version_release q = Inr kq \<and> version_release (kept vs) = Inr kp \<and> kq \<le> kp"
      by blast
  qed
  have "clean_loop root [] (vs # []) =
    clean_loop root
      (if discarded vs = [] then []
       else AList.update (kept vs) (map (\<lambda>v. path_join root (packname v)) (discarded vs)) [])
      []"
    using ne valid by (rule clean_loop_step)
  then have d: "clean root [vs] =
      Inr (if discarded vs = [] then []
           else [(kept vs, map (\<lambda>v. path_join root (packname v)) (discarded vs))])"
    by (simp add: clean_def)
  from a b c d show "\<exists>p rest.
        py_sort version_release vs = Inr (rest @ [p]) \<and>
        mset (p # rest) = mset vs \<and>
        (\<forall>q\<in>set vs. \<exists>kq kp. version_release q = Inr kq \<and> version_release p = Inr kp \<and> kq \<le> kp) \<and>
        clean root [vs] =
          Inr (if rest = [] then [] else [(p, map (\<lambda>v. path_join root (packname v)) rest)])"
    by blast
next
  show "clean ''r'' [[CygPackage (Some ''p'') (Some ''9'') (Some ''1''),
                    CygPackage (Some ''p'') (Some ''10'') (Some ''1'')]]
       = Inr [(CygPackage (Some ''p'') (Some ''9'') (Some ''1''), [''r/p-10-1.tar.bz2''])]"
    by code_simp
qed

theorem clean_keeps_lexicographic_maximum_witness:
  "\<exists>p rest.
     py_sort version_release
       [CygPackage (Some ''pkg'') (Some ''1.0'') (Some ''1''),
        CygPackage (Some ''pkg'') (Some ''2.0'') (Some ''1''),
        CygPackage (Some ''pkg'') (Some ''1.5'') (Some ''3'')] = Inr (rest @ [p]) \<and>
     p = CygPackage (Some ''pkg'') (Some ''2.0'') (Some ''1'') \<and>
     mset (p # rest) =
       mset [CygPackage (Some ''pkg'') (Some ''1.0'') (Some ''1''),
             CygPackage (Some ''pkg'') (Some ''2.0'') (Some ''1''),
             CygPackage (Some ''pkg'') (Some ''1.5'') (Some ''3'')] \<and>
     clean ''d''
       [[CygPackage (Some ''pkg'') (Some ''1.0'') (Some ''1''),
         CygPackage (Some ''pkg'') (Some ''2.0'') (Some ''1''),
         CygPackage (Some ''pkg'') (Some ''1.5'') (Some ''3'')]] =
       Inr (if rest = [] then [] else [(p, map (\<lambda>v. path_join ''d'' (packname v)) rest)])"
proof -
  let ?vs = "[CygPackage (Some ''pkg'') (Some ''1.0'') (Some ''1''),
        CygPackage (Some ''pkg'') (Some ''2.0'') (Some ''1''),
        CygPackage (Some ''pkg'') (Some ''1.5'') (Some ''3'')]"
  have h: "?vs \<noteq> [] \<and> (\<forall>q\<in>set ?vs. \<exists>k. version_release q = Inr k)"
    by (simp add: version_release_def)
  have e: "py_sort version_release ?vs =
      Inr [CygPackage (Some ''pkg'') (Some ''1.0'') (Some ''1''),
           CygPackage (Some ''pkg'') (Some ''1.5'') (Some ''3''),
           CygPackage (Some ''pkg'') (Some ''2.0'') (Some ''1'')]"
    by code_simp
  from clean_keeps_lexicographic_maximum [of ?vs "''d''"] h
  obtain p rest where r: "py_sort version_release ?vs = Inr (rest @ [p])"
    "mset (p # rest) = mset ?vs"
    "clean ''d'' [?vs] = Inr (if rest = [] then [] else [(p, map (\<lambda>v. path_join ''d'' (packname v)) rest)])"
    by blast
  from r(1) e have "rest @ [p] = [CygPackage (Some ''pkg'') (Some ''1.0'') (Some ''1''),
           CygPackage (Some ''pkg'') (Some ''1.5'') (Some ''3'')] @ [CygPackage (Some ''pkg'') (Some ''2.0'') (Some ''1'')]"
    by simp
  then have "p = CygPackage (Some ''pkg'') (Some ''2.0'') (Some ''1'')"
    by (simp only: append1_eq_conv)
  with r show ?thesis by blast
qed

text \<open>
  Claim C2. An identity other than the sentinel whose name is a non-empty string and whose
  version and release pass \<open>chkversion\<close> and \<open>chkrelease\<close> has the canonical file name
  \<open>name-version-release.tar.bz2\<close>, and parsing that file name gives the identity back; the
  canonical file name of the sentinel is the empty string. (The checks of the code accept
  every string of the version and release grammars, so the law covers those.)
\<close>

theorem parse_packname_roundtrip:
  "(p \<noteq> INVALID_PACKAGE \<and> package p = Some n \<and> n \<noteq> [] \<and>
    version p = Some v \<and> chkversion v \<and> release p = Some r \<and> chkrelease r \<longrightarrow>
      packname p = n @ ''-'' @ v @ ''-'' @ r @ ''.tar.bz2'' \<and> cygpackage (packname p) = p)
   \<and> packname INVALID_PACKAGE = []"
proof (intro conjI impI)
  assume h: "p \<noteq> INVALID_PACKAGE \<and> package p = Some n \<and> n \<noteq> [] \<and>
    version p = Some v \<and> chkversion v \<and> release p = Some r \<and> chkrelease r"
  then have p: "p = CygPackage (Some n) (Some v) (Some r)" by (cases p) simp
  then show "packname p = n @ ''-'' @ v @ ''-'' @ r @ ''.tar.bz2''"
    by (simp add: packname_valid SUFFIX_def)
  from h have "cygpackage (n @ ''-'' @ v @ ''-'' @ r @ SUFFIX) = CygPackage (Some n) (Some v) (Some r)"
    by (intro cygpackage_build) simp_all
  with p show "cygpackage (packname p) = p" by (simp only: packname_valid)
next
  show "packname INVALID_PACKAGE = []" by (simp add: packname_def)
qed

theorem parse_packname_roundtrip_witness:
  "CygPackage (Some ''gcc4-core'') (Some ''4.5.3'') (Some ''3'') \<noteq> INVALID_PACKAGE \<and>
   chkversion ''4.5.3'' \<and> chkrelease ''3'' \<and>
   packname (CygPackage (Some ''gcc4-core'') (Some ''4.5.3'') (Some ''3'')) = ''gcc4-core-4.5.3-3.tar.bz2'' \<and>
   cygpackage ''gcc4-core-4.5.3-3.tar.bz2'' = CygPackage (Some ''gcc4-core'') (Some ''4.5.3'') (Some ''3'')"
proof -
  let ?p = "CygPackage (Some ''gcc4-core'') (Some ''4.5.3'') (Some ''3'')"
  have a: "?p \<noteq> INVALID_PACKAGE" by (simp add: INVALID_PACKAGE_def)
  have b: "chkversion ''4.5.3''" by code_simp
  have c: "chkrelease ''3''" by code_simp
  have h: "?p \<noteq> INVALID_PACKAGE \<and> package ?p = Some ''gcc4-core'' \<and> ''gcc4-core'' \<noteq> [] \<and>
    version ?p = Some ''4.5.3'' \<and> chkversion ''4.5.3'' \<and> release ?p = Some ''3'' \<and> chkrelease ''3''"
    using a b c by simp
  from parse_packname_roundtrip [of ?p "''gcc4-core''" "''4.5.3''" "''3''"] h
  have r: "packname ?p = ''gcc4-core'' @ ''-'' @ ''4.5.3'' @ ''-'' @ ''3'' @ ''.tar.bz2'' \<and>
    cygpackage (packname ?p) = ?p" by blast
  then have e1: "packname ?p = ''gcc4-core-4.5.3-3.tar.bz2''" by simp
  from r have e2: "cygpackage (packname ?p) = ?p" by (rule conjunct2)
  then have "cygpackage ''gcc4-core-4.5.3-3.tar.bz2'' = ?p" unfolding e1 .
  with a b c e1 show ?thesis by blast
qed

text \<open>
  Claim C3, as amended. For every string, \<open>cygpackage\<close> returns the sentinel or an identity
  whose three fields are strings, with a version that passes \<open>chkversion\<close> and a release
  that passes \<open>chkrelease\<close>. Nothing is checked about the name: it is empty for
  \<^verbatim>\<open>-1-1.tar.bz2\<close>, which is the counterexample to the claim as stated.
\<close>

theorem cygpackage_invalid_or_checked:
  "cygpackage s = INVALID_PACKAGE \<or>
   (\<exists>n v r. cygpackage s = CygPackage (Some n) (Some v) (Some r) \<and> chkversion v \<and> chkrelease r)"
  using cygpackage_cases [of s] by blast

theorem cygpackage_invalid_or_checked_witness:
  "\<exists>n v r. cygpackage ''libstdc++6-4.5.3-3.tar.bz2'' = CygPackage (Some n) (Some v) (Some r) \<and>
     chkversion v \<and> chkrelease r"
proof -
  have "cygpackage ''libstdc++6-4.5.3-3.tar.bz2'' \<noteq> INVALID_PACKAGE" by code_simp
  with cygpackage_invalid_or_checked [of "''libstdc++6-4.5.3-3.tar.bz2''"] show ?thesis by blast
qed

theorem cygpackage_empty_name_counterexample:
  "cygpackage ''-1-1.tar.bz2'' \<noteq> INVALID_PACKAGE \<and> package (cygpackage ''-1-1.tar.bz2'') = Some []"
  by code_simp

text \<open>
  Claim C4. \<open>chkversion\<close> is meant to accept exactly a digit followed by digits and dots.
  It accepts the two-character string made of \<^verbatim>\<open>1\<close> and a line feed, whose second
  character is neither: \<^verbatim>\<open>$\<close> also matches before a final newline.
\<close>

theorem chkversion_trailing_newline:
  "chkversion [CHR ''1'', CHR 0x0A] \<and> \<not> re_digit_or_dot (CHR 0x0A) \<and>
   version (cygpackage (''foo-1'' @ [CHR 0x0A] @ ''-1.tar.bz2'')) = Some [CHR ''1'', CHR 0x0A]"
  by code_simp

text \<open>
  Claim C5. \<open>chkrelease\<close> is meant to accept exactly a non-zero digit followed by digits.
  It accepts the two-character string made of \<^verbatim>\<open>1\<close> and a line feed, whose second
  character is not a digit: \<^verbatim>\<open>$\<close> also matches before a final newline.
\<close>

theorem chkrelease_trailing_newline:
  "chkrelease [CHR ''1'', CHR 0x0A] \<and> \<not> re_digit (CHR 0x0A) \<and>
   release (cygpackage (''foo-1-1'' @ [CHR 0x0A] @ ''.tar.bz2'')) = Some [CHR ''1'', CHR 0x0A]"
  by code_simp

lemma chkversion_examples:
  "chkversion ''4.5.3'' \<and> chkversion ''20121212'' \<and> chkversion ''1.3'' \<and>
   \<not> chkversion ''.3.2'' \<and> \<not> chkversion ''3.4.foo'' \<and> \<not> chkversion []"
  by code_simp

lemma chkrelease_examples:
  "\<not> chkrelease ''0'' \<and> chkrelease ''1'' \<and> chkrelease ''7'' \<and> chkrelease ''100'' \<and>
   \<not> chkrelease ''quux'' \<and> \<not> chkrelease ''01'' \<and> \<not> chkrelease []"
  by code_simp

text \<open>
  Claim C6. A string that does not end with \<^verbatim>\<open>.tar.bz2\<close>, spelled exactly so, parses to
  the sentinel; so do \<^verbatim>\<open>foo-3.2-4.tar.gz\<close> and the upper-case \<^verbatim>\<open>foo-3.2-4.TAR.BZ2\<close>.
\<close>

theorem cygpackage_requires_suffix:
  "((\<nexists>p. s = p @ ''.tar.bz2'') \<longrightarrow> cygpackage s = INVALID_PACKAGE) \<and>
   cygpackage ''foo-3.2-4.tar.gz'' = INVALID_PACKAGE \<and>
   cygpackage ''foo-3.2-4.TAR.BZ2'' = INVALID_PACKAGE"
proof (intro conjI impI)
  assume "\<nexists>p. s = p @ ''.tar.bz2''"
  then have "\<not> endswith s SUFFIX" by (simp add: endswith_iff SUFFIX_def)
  then show "cygpackage s = INVALID_PACKAGE" by (simp add: cygpackage_def)
next
  show "cygpackage ''foo-3.2-4.tar.gz'' = INVALID_PACKAGE" by code_simp
next
  show "cygpackage ''foo-3.2-4.TAR.BZ2'' = INVALID_PACKAGE" by code_simp
qed

theorem cygpackage_requires_suffix_witness:
  "(\<nexists>p. ''foo-3.2-4.tar.bz'' = p @ ''.tar.bz2'') \<and> cygpackage ''foo-3.2-4.tar.bz'' = INVALID_PACKAGE"
proof -
  have "\<not> endswith ''foo-3.2-4.tar.bz'' ''.tar.bz2''" by (simp add: endswith_def)
  then have h: "\<nexists>p. ''foo-3.2-4.tar.bz'' = p @ ''.tar.bz2''"
    using endswith_iff [of "''foo-3.2-4.tar.bz''" "''.tar.bz2''"] by blast
  with cygpackage_requires_suffix [of "''foo-3.2-4.tar.bz''"] show ?thesis by blast
qed

text \<open>
  Claim C7. When at most one file name of a directory's listing parses to an identity,
  \<open>prune\<close> returns the world as it found it, with no file removed and nothing printed,
  and so does the iteration of \<open>forp\<close> for that directory.
\<close>

theorem at_most_one_package_file_untouched:
  "length (filter ispackfile files) \<le> 1 \<Longrightarrow>
     prune root files a w = Inr w \<and> forp prune ispackdir [(root, dirs, files)] a w = Inr w"
proof -
  assume "length (filter ispackfile files) \<le> 1"
  then have "prune root files a w = Inr w" by (rule prune_at_most_one)
  then show ?thesis by simp
qed

theorem at_most_one_package_file_untouched_witness:
  "length (filter ispackfile [''foo-1.0-1.tar.bz2'', ''setup.ini'']) = 1 \<and>
   ispackdir ''d'' [] [''foo-1.0-1.tar.bz2'', ''setup.ini''] \<and>
   prune ''d'' [''foo-1.0-1.tar.bz2'', ''setup.ini''] \<lparr>verbose = True\<rparr>
     \<lparr>fs = {''d/foo-1.0-1.tar.bz2'', ''d/setup.ini''}, out = []\<rparr>
     = Inr \<lparr>fs = {''d/foo-1.0-1.tar.bz2'', ''d/setup.ini''}, out = []\<rparr> \<and>
   forp prune ispackdir [(''d'', [], [''foo-1.0-1.tar.bz2'', ''setup.ini''])] \<lparr>verbose = True\<rparr>
     \<lparr>fs = {''d/foo-1.0-1.tar.bz2'', ''d/setup.ini''}, out = []\<rparr>
     = Inr \<lparr>fs = {''d/foo-1.0-1.tar.bz2'', ''d/setup.ini''}, out = []\<rparr>"
proof -
  have l: "length (filter ispackfile [''foo-1.0-1.tar.bz2'', ''setup.ini'']) = 1" by code_simp
  then have "length (filter ispackfile [''foo-1.0-1.tar.bz2'', ''setup.ini'']) \<le> 1" by simp
  from at_most_one_package_file_untouched [OF this, of "''d''" "\<lparr>verbose = True\<rparr>"
      "\<lparr>fs = {''d/foo-1.0-1.tar.bz2'', ''d/setup.ini''}, out = []\<rparr>" "[]"]
  have "prune ''d'' [''foo-1.0-1.tar.bz2'', ''setup.ini''] \<lparr>verbose = True\<rparr>
     \<lparr>fs = {''d/foo-1.0-1.tar.bz2'', ''d/setup.ini''}, out = []\<rparr>
     = Inr \<lparr>fs = {''d/foo-1.0-1.tar.bz2'', ''d/setup.ini''}, out = []\<rparr> \<and>
   forp prune ispackdir [(''d'', [], [''foo-1.0-1.tar.bz2'', ''setup.ini''])] \<lparr>verbose = True\<rparr>
     \<lparr>fs = {''d/foo-1.0-1.tar.bz2'', ''d/setup.ini''}, out = []\<rparr>
     = Inr \<lparr>fs = {''d/foo-1.0-1.tar.bz2'', ''d/setup.ini''}, out = []\<rparr>" .
  moreover have "ispackdir ''d'' [] [''foo-1.0-1.tar.bz2'', ''setup.ini'']" by code_simp
  ultimately show ?thesis using l by blast
qed

text \<open>
  Claim C8. A group of exactly one identity leaves \<open>trash\<close> as it was. Hence a listing
  whose package files all have different names changes nothing; so does a listing of two
  package files with different names, for which \<open>ispackdir\<close> holds; in particular the
  listing \<^verbatim>\<open>foo-1.0-1.tar.bz2\<close>, \<^verbatim>\<open>bar-2.0-1.tar.bz2\<close>.
\<close>

theorem single_member_group_adds_nothing:
  "(version_release p = Inr k \<longrightarrow> clean_loop root trash ([p] # pks) = clean_loop root trash pks)
   \<and> (distinct (map (\<lambda>f. package (cygpackage f)) (filter ispackfile files)) \<longrightarrow>
        prune root files a w = Inr w)
   \<and> (ispackfile f \<and> ispackfile g \<and> package (cygpackage f) \<noteq> package (cygpackage g) \<longrightarrow>
        ispackdir root dirs [f, g] \<and> prune root [f, g] a w = Inr w)
   \<and> ispackdir ''d'' [] [''foo-1.0-1.tar.bz2'', ''bar-2.0-1.tar.bz2'']
   \<and> prune ''d'' [''foo-1.0-1.tar.bz2'', ''bar-2.0-1.tar.bz2''] a w = Inr w"
proof (intro conjI impI)
  assume "version_release p = Inr k"
  then have v: "version_release p = Inr (vr p)" using version_release_Inr_iff by blast
  have "discarded [p] = []" by (simp add: discarded_def)
  moreover have "clean_loop root trash ([p] # pks) =
    clean_loop root
      (if discarded [p] = [] then trash
       else AList.update (kept [p]) (map (\<lambda>v. path_join root (packname v)) (discarded [p])) trash)
      pks"
    using v by (intro clean_loop_step) simp_all
  ultimately show "clean_loop root trash ([p] # pks) = clean_loop root trash pks" by simp
next
  assume "distinct (map (\<lambda>f. package (cygpackage f)) (filter ispackfile files))"
  then show "prune root files a w = Inr w" by (rule prune_distinct_names)
next
  assume "ispackfile f \<and> ispackfile g \<and> package (cygpackage f) \<noteq> package (cygpackage g)"
  then show "ispackdir root dirs [f, g]" by (simp add: ispackdir_def)
next
  assume "ispackfile f \<and> ispackfile g \<and> package (cygpackage f) \<noteq> package (cygpackage g)"
  then have "distinct (map (\<lambda>f. package (cygpackage f)) (filter ispackfile [f, g]))" by simp
  then show "prune root [f, g] a w = Inr w" by (rule prune_distinct_names)
next
  show "ispackdir ''d'' [] [''foo-1.0-1.tar.bz2'', ''bar-2.0-1.tar.bz2'']" by code_simp
next
  have "distinct (map (\<lambda>f. package (cygpackage f))
      (filter ispackfile [''foo-1.0-1.tar.bz2'', ''bar-2.0-1.tar.bz2'']))"
    by code_simp
  then show "prune ''d'' [''foo-1.0-1.tar.bz2'', ''bar-2.0-1.tar.bz2''] a w = Inr w"
    by (rule prune_distinct_names)
qed

theorem single_member_group_adds_nothing_witness:
  "version_release (CygPackage (Some ''foo'') (Some ''1.0'') (Some ''1'')) = Inr ''1.0-1'' \<and>
   clean_loop ''d'' [] ([CygPackage (Some ''foo'') (Some ''1.0'') (Some ''1'')] # []) = Inr [] \<and>
   distinct (map (\<lambda>f. package (cygpackage f))
     (filter ispackfile [''a-1-1.tar.bz2'', ''b-1-1.tar.bz2'', ''c-1-1.tar.bz2''])) \<and>
   prune ''d'' [''a-1-1.tar.bz2'', ''b-1-1.tar.bz2'', ''c-1-1.tar.bz2''] \<lparr>verbose = False\<rparr>
     \<lparr>fs = {}, out = []\<rparr> = Inr \<lparr>fs = {}, out = []\<rparr>"
proof -
  have a: "version_release (CygPackage (Some ''foo'') (Some ''1.0'') (Some ''1'')) = Inr ''1.0-1''"
    by (simp add: version_release_def)
  have b: "distinct (map (\<lambda>f. package (cygpackage f))
     (filter ispackfile [''a-1-1.tar.bz2'', ''b-1-1.tar.bz2'', ''c-1-1.tar.bz2'']))"
    by code_simp
  note t = single_member_group_adds_nothing
    [where p = "CygPackage (Some ''foo'') (Some ''1.0'') (Some ''1'')" and k = "''1.0-1''"
      and root = "''d''" and trash = "[]" and pks = "[]"
      and files = "[''a-1-1.tar.bz2'', ''b-1-1.tar.bz2'', ''c-1-1.tar.bz2'']"
      and a = "\<lparr>verbose = False\<rparr>" and w = "\<lparr>fs = {}, out = []\<rparr>"]
  from t a have "clean_loop ''d'' [] ([CygPackage (Some ''foo'') (Some ''1.0'') (Some ''1'')] # [])
      = clean_loop ''d'' [] []" by blast
  then have c: "clean_loop ''d'' [] ([CygPackage (Some ''foo'') (Some ''1.0'') (Some ''1'')] # []) = Inr []"
    by simp
  from t b have "prune ''d'' [''a-1-1.tar.bz2'', ''b-1-1.tar.bz2'', ''c-1-1.tar.bz2''] \<lparr>verbose = False\<rparr>
     \<lparr>fs = {}, out = []\<rparr> = Inr \<lparr>fs = {}, out = []\<rparr>" by blast
  with a b c show ?thesis by blast
qed

text \<open>
  Claim C9. Take the listing of a directory: distinct names without a slash, each naming
  a file that exists under \<open>root\<close>. Then \<open>clean\<close> returns a \<open>trash\<close> whose paths are exactly
  those of the superseded package files, and the path of no key of \<open>trash\<close> (a kept
  identity) is among them; \<open>prune\<close> succeeds and removes exactly those paths, so a listed
  file remains if and only if it is not superseded, and for every package name in the
  listing exactly one package file of that name remains.
\<close>

theorem prune_leaves_exactly_the_newest:
  assumes "distinct files"
    and "\<forall>f\<in>set files. CHR ''/'' \<notin> set f"
    and "\<forall>f\<in>set files. path_join root f \<in> fs w"
  shows "\<exists>trash w'.
     clean root (name_groups files) = Inr trash \<and>
     (\<Union>(p, ps)\<in>set trash. set ps) = path_join root ` {f \<in> set files. superseded files f} \<and>
     (\<forall>(p, ps)\<in>set trash. path_join root (packname p) \<notin> (\<Union>(q, qs)\<in>set trash. set qs)) \<and>
     prune root files a w = Inr w' \<and>
     fs w' = fs w - path_join root ` {f \<in> set files. superseded files f} \<and>
     (\<forall>f\<in>set files. path_join root f \<in> fs w' \<longleftrightarrow> \<not> superseded files f) \<and>
     (\<forall>f\<in>set files. ispackfile f \<longrightarrow>
        (\<exists>!g. g \<in> set files \<and> ispackfile g \<and>
           package (cygpackage g) = package (cygpackage f) \<and> path_join root g \<in> fs w'))"
proof -
  let ?trash = "concat (map (entry root) (name_groups files))"
  let ?X = "path_join root ` {f \<in> set files. superseded files f}"
  have c1: "clean root (name_groups files) = Inr ?trash"
    using assms(1) by (rule clean_name_groups)
  have c2: "(\<Union>(p, ps)\<in>set ?trash. set ps) = ?X"
    unfolding trash_paths_concat paths_of_entries using assms(1) by (rule removed_paths)
  have c3: "\<forall>(p, ps)\<in>set ?trash. path_join root (packname p) \<notin> (\<Union>(q, qs)\<in>set ?trash. set qs)"
  proof (intro ballI)
    fix x assume xt: "x \<in> set ?trash"
    obtain p ps where x: "x = (p, ps)" by (cases x)
    from trash_keys_newest [OF assms(1)] xt x obtain f where
      f: "f \<in> set files" "ispackfile f" "p = cygpackage f" "\<not> superseded files f" by blast
    from f(2,3) have "packname p = f" by (simp add: packname_cygpackage)
    moreover from f(1,4) have "path_join root f \<notin> ?X"
      using superseded_path_iff [OF assms(2)] by blast
    ultimately have "path_join root (packname p) \<notin> (\<Union>(q, qs)\<in>set ?trash. set qs)"
      unfolding c2 by simp
    then show "case x of (p, ps) \<Rightarrow> path_join root (packname p) \<notin> (\<Union>(q, qs)\<in>set ?trash. set qs)"
      unfolding x by simp
  qed
  from prune_effect [OF assms, of a] obtain w' where
    c4: "prune root files a w = Inr w'" and c5: "fs w' = fs w - ?X" by blast
  have c6: "\<forall>f\<in>set files. path_join root f \<in> fs w' \<longleftrightarrow> \<not> superseded files f"
    using assms(3) superseded_path_iff [OF assms(2)] unfolding c5 by blast
  have c7: "\<forall>f\<in>set files. ispackfile f \<longrightarrow>
        (\<exists>!g. g \<in> set files \<and> ispackfile g \<and>
           package (cygpackage g) = package (cygpackage f) \<and> path_join root g \<in> fs w')"
  proof (intro ballI impI)
    fix f assume f: "f \<in> set files" "ispackfile f"
    from newest_exists [OF f] obtain g where g: "g \<in> set files" "ispackfile g"
      "package (cygpackage g) = package (cygpackage f)" "\<not> superseded files g" by blast
    show "\<exists>!g. g \<in> set files \<and> ispackfile g \<and>
           package (cygpackage g) = package (cygpackage f) \<and> path_join root g \<in> fs w'"
    proof (rule ex1I [of _ g])
      from g c6 show "g \<in> set files \<and> ispackfile g \<and>
           package (cygpackage g) = package (cygpackage f) \<and> path_join root g \<in> fs w'" by blast
    next
      fix h assume h: "h \<in> set files \<and> ispackfile h \<and>
           package (cygpackage h) = package (cygpackage f) \<and> path_join root h \<in> fs w'"
      with c6 have "\<not> superseded files h" by blast
      moreover from h g(3) have "package (cygpackage h) = package (cygpackage g)" by simp
      ultimately show "h = g" using h g(1,2,4) by (intro newest_unique [of h files g]) simp_all
    qed
  qed
  from c1 c2 c3 c4 c5 c6 c7 show ?thesis by blast
qed

theorem prune_leaves_exactly_the_newest_witness:
  "distinct [''libstdc++6-4.5.3-3.tar.bz2'', ''libstdc++6-4.5.2-1.tar.bz2'', ''setup.ini''] \<and>
   prune ''d'' [''libstdc++6-4.5.3-3.tar.bz2'', ''libstdc++6-4.5.2-1.tar.bz2'', ''setup.ini'']
     \<lparr>verbose = False\<rparr>
     \<lparr>fs = {''d/libstdc++6-4.5.3-3.tar.bz2'', ''d/libstdc++6-4.5.2-1.tar.bz2'', ''d/setup.ini'',
             ''e/other''},
      out = []\<rparr>
     = Inr \<lparr>fs = {''d/libstdc++6-4.5.3-3.tar.bz2'', ''d/setup.ini'', ''e/other''}, out = []\<rparr> \<and>
   superseded [''libstdc++6-4.5.3-3.tar.bz2'', ''libstdc++6-4.5.2-1.tar.bz2'', ''setup.ini'']
     ''libstdc++6-4.5.2-1.tar.bz2'' \<and>
   \<not> superseded [''libstdc++6-4.5.3-3.tar.bz2'', ''libstdc++6-4.5.2-1.tar.bz2'', ''setup.ini'']
     ''libstdc++6-4.5.3-3.tar.bz2''"
proof -
  let ?files = "[''libstdc++6-4.5.3-3.tar.bz2'', ''libstdc++6-4.5.2-1.tar.bz2'', ''setup.ini'']"
  let ?w = "\<lparr>fs = {''d/libstdc++6-4.5.3-3.tar.bz2'', ''d/libstdc++6-4.5.2-1.tar.bz2'', ''d/setup.ini'',
             ''e/other''}, out = []\<rparr>"
  let ?w' = "\<lparr>fs = {''d/libstdc++6-4.5.3-3.tar.bz2'', ''d/setup.ini'', ''e/other''}, out = []\<rparr>"
  have h1: "distinct ?files" by simp
  have h2: "\<forall>f\<in>set ?files. CHR ''/'' \<notin> set f" by simp
  have h3: "\<forall>f\<in>set ?files. path_join ''d'' f \<in> fs ?w" by (simp add: path_join_def)
  have ev: "prune ''d'' ?files \<lparr>verbose = False\<rparr> ?w = Inr ?w'" by code_simp
  from prune_leaves_exactly_the_newest [OF h1 h2 h3, of "\<lparr>verbose = False\<rparr>"] obtain w' where
    p: "prune ''d'' ?files \<lparr>verbose = False\<rparr> ?w = Inr w'"
    and k: "\<forall>f\<in>set ?files. path_join ''d'' f \<in> fs w' \<longleftrightarrow> \<not> superseded ?files f"
    by (elim exE conjE) (rule that, assumption+)
  from p ev have w': "w' = ?w'" by simp
  have j2: "path_join ''d'' ''libstdc++6-4.5.2-1.tar.bz2'' \<notin> fs ?w'" by (simp add: path_join_def)
  have j3: "path_join ''d'' ''libstdc++6-4.5.3-3.tar.bz2'' \<in> fs ?w'" by (simp add: path_join_def)
  from k j2 have s2: "superseded ?files ''libstdc++6-4.5.2-1.tar.bz2''" unfolding w' by simp
  from k j3 have s3: "\<not> superseded ?files ''libstdc++6-4.5.3-3.tar.bz2''" unfolding w' by simp
  from h1 ev s2 s3 show ?thesis by blast
qed

text \<open>
  Claim C10. The canonical file name of the identity parsed from a package file name is
  that file name; and for any listing \<open>clean\<close> returns a \<open>trash\<close> in which every path is
  \<open>root\<close> joined with a package file name of the listing.
\<close>

theorem removal_paths_name_listed_files:
  "(ispackfile f \<longrightarrow> packname (cygpackage f) = f) \<and>
   (\<exists>trash. clean root (name_groups files) = Inr trash \<and>
      (\<forall>(p, ps)\<in>set trash. \<forall>path\<in>set ps. \<exists>g\<in>set files. ispackfile g \<and> path = path_join root g))"
proof (intro conjI impI)
  assume "ispackfile f"
  then show "packname (cygpackage f) = f" by (rule packname_cygpackage)
next
  have valid: "\<forall>vs\<in>set (name_groups files). vs \<noteq> [] \<and> (\<forall>p\<in>set vs. version_release p = Inr (vr p))"
    using name_groups_valid [of files] by blast
  from clean_loop_paths [OF valid, of root "[]"] obtain t where
    t: "clean_loop root [] (name_groups files) = Inr t"
    and inv: "\<forall>(p, ps)\<in>set t. \<exists>vs\<in>set (name_groups files). p \<in> set vs \<and>
       set ps \<subseteq> (\<lambda>v. path_join root (packname v)) ` set vs"
    by auto
  have "\<forall>(p, ps)\<in>set t. \<forall>path\<in>set ps. \<exists>g\<in>set files. ispackfile g \<and> path = path_join root g"
  proof (intro ballI)
    fix x assume xt: "x \<in> set t"
    obtain p ps where x: "x = (p, ps)" by (cases x)
    have "\<forall>path\<in>set ps. \<exists>g\<in>set files. ispackfile g \<and> path = path_join root g"
    proof
      fix path assume "path \<in> set ps"
      with inv xt x obtain vs v where vs: "vs \<in> set (name_groups files)" "v \<in> set vs"
        "path = path_join root (packname v)" by blast
      with name_groups_valid [of files] obtain g where g: "g \<in> set files" "ispackfile g" "v = cygpackage g"
        by blast
      from g(2,3) have pv: "packname v = g" by (simp add: packname_cygpackage)
      from vs(3) have "path = path_join root g" unfolding pv .
      with g(1,2) show "\<exists>g\<in>set files. ispackfile g \<and> path = path_join root g" by blast
    qed
    then show "case x of (p, ps) \<Rightarrow> \<forall>path\<in>set ps. \<exists>g\<in>set files. ispackfile g \<and> path = path_join root g"
      unfolding x by simp
  qed
  with t show "\<exists>trash. clean root (name_groups files) = Inr trash \<and>
      (\<forall>(p, ps)\<in>set trash. \<forall>path\<in>set ps. \<exists>g\<in>set files. ispackfile g \<and> path = path_join root g)"
    unfolding clean_def by blast
qed

theorem removal_paths_name_listed_files_witness:
  "ispackfile ''gcc4-core-4.5.3-3.tar.bz2'' \<and>
   packname (cygpackage ''gcc4-core-4.5.3-3.tar.bz2'') = ''gcc4-core-4.5.3-3.tar.bz2'' \<and>
   (\<exists>trash. clean ''d'' (name_groups [''a-1-1.tar.bz2'', ''a-2-1.tar.bz2'']) = Inr trash \<and>
      (\<forall>(p, ps)\<in>set trash. \<forall>path\<in>set ps.
         \<exists>g\<in>set [''a-1-1.tar.bz2'', ''a-2-1.tar.bz2'']. ispackfile g \<and> path = path_join ''d'' g))"
proof -
  have i: "ispackfile ''gcc4-core-4.5.3-3.tar.bz2''" by code_simp
  with removal_paths_name_listed_files
    [of "''gcc4-core-4.5.3-3.tar.bz2''" "''d''" "[''a-1-1.tar.bz2'', ''a-2-1.tar.bz2'']"]
  show ?thesis by blast
qed

end
